theory Spec2Isabelle
  imports Main
begin

section \<open>Data model of the worker's authentication service\<close>

text \<open>
  The service of \<^verbatim>\<open>worker/services/auth.ts\<close> is one closure over a private context
  (\<^verbatim>\<open>authCtx\<close>), the worker context (\<^verbatim>\<open>ctx\<close>), the in-memory authentication store, the
  API client and the browser's session storage. All of them are fields of one state
  record here; every method takes the state and returns the new one.
\<close>

text \<open>
  Modelled from the spec: the enums \<^verbatim>\<open>WorkerStatus\<close> and \<^verbatim>\<open>SessionLockStatus\<close>, which the
  file imports. The worker statuses are the six of the spec's data model, all of which
  the service sets. Of the lock statuses the service names \<^verbatim>\<open>LOCKED\<close> and \<^verbatim>\<open>REGISTERED\<close>
  (\<^verbatim>\<open>SessionLockStatus.LOCKED\<close> is written \<open>LOCKED_SESSION\<close>, the name \<open>LOCKED\<close> being
  taken by the worker status); \<open>NONE\<close> is the spec's status of a session without a lock.
\<close>

datatype WorkerStatus =
  UNAUTHORIZED | RESUMING | RESUMING_FAILED | AUTHORIZING | AUTHORIZED | LOCKED

datatype SessionLockStatus = NONE | REGISTERED | LOCKED_SESSION

record LoginOptions =
  UID :: string
  AccessToken :: string
  RefreshToken :: string
  keyPassword :: string

text \<open>
  Modelled from the spec: what \<^verbatim>\<open>checkSessionLock()\<close> resolves to, a status and an
  optional time to live. The service reads \<^verbatim>\<open>status\<close> and \<^verbatim>\<open>ttl\<close>.
\<close>

record SessionLock =
  lock_status :: SessionLockStatus
  lock_ttl :: "nat option"

text \<open>
  A thrown value whose properties can be read. The service reads \<^verbatim>\<open>name\<close>, \<^verbatim>\<open>title\<close> and
  \<^verbatim>\<open>message\<close> of what it catches and tests \<^verbatim>\<open>instanceof Error\<close>; a missing property
  is \<open>None\<close>.
\<close>

record error =
  err_name :: "string option"
  err_title :: "string option"
  err_message :: "string option"
  instanceof_Error :: bool

text \<open>
  What a promise rejects with and a \<^verbatim>\<open>catch\<close> receives: any value at all. \<^verbatim>\<open>undefined\<close> and
  \<^verbatim>\<open>null\<close> are the two values of which no property can be read: \<^verbatim>\<open>e.title\<close> raises a
  \<^verbatim>\<open>TypeError\<close> there, while \<^verbatim>\<open>e instanceof Error\<close> is false and \<^verbatim>\<open>e?.message\<close> is
  \<^verbatim>\<open>undefined\<close>.
\<close>

datatype thrown = Nullish | Thrown error

text \<open>The argument of \<^verbatim>\<open>api.configure\<close>; \<^verbatim>\<open>api.configure()\<close> is \<open>None\<close>.\<close>

record ApiAuth =
  api_UID :: string
  api_AccessToken :: string
  api_RefreshToken :: string

text \<open>
  Modelled from the spec: the persisted session that \<^verbatim>\<open>getPersistedSession\<close> yields, the
  payload of a fork message and the result of the fork exchange, whose types the file
  imports. Each has the fields the service reads, and the rest of the object as one
  opaque value.
\<close>

record PersistedSession =
  ps_UID :: string
  ps_AccessToken :: string
  ps_RefreshToken :: string
  ps_rest :: string

record ForkPayload =
  fork_keyPassword :: string
  fork_rest :: string

record ForkResult =
  fork_UID :: string
  fork_AccessToken :: string
  fork_RefreshToken :: string

text \<open>What the fork handler resolves to: \<^verbatim>\<open>{ payload: { title, message } }\<close>.\<close>

record Payload =
  title :: string
  message :: string

text \<open>
  What the fork handler rejects with: the object \<^verbatim>\<open>{ payload: { title, message } }\<close> that
  its \<^verbatim>\<open>catch\<close> block throws (lines 159 to 162); what \<^verbatim>\<open>api.configure()\<close> threw at line 121,
  before the \<^verbatim>\<open>try\<close> block; or the \<^verbatim>\<open>TypeError\<close> that the \<^verbatim>\<open>catch\<close> block itself raises
  when it reads \<^verbatim>\<open>error.title\<close> of a caught \<^verbatim>\<open>undefined\<close> or \<^verbatim>\<open>null\<close>.
\<close>

datatype rejection = WithPayload Payload | Raw thrown | RawTypeError

subsection \<open>Effects observed at the service's boundary\<close>

text \<open>
  The asynchronous calls the service awaits. \<open>Login\<close> is the service's own
  \<^verbatim>\<open>authService.login\<close>, which \<^verbatim>\<open>consumeFork\<close> starts beside \<^verbatim>\<open>persistSession\<close>; the
  others are collaborators: session storage, the lock-status endpoint, the persisted
  session, the transport's resume and fork exchange, and the \<^verbatim>\<open>pass/v1/user/access\<close>
  handshake.
\<close>

datatype call =
  GetItems
| SetItems LoginOptions
| CheckSessionLock
| GetPersistedSession
| ResumeSession PersistedSession
| ConsumeFork ForkPayload
| PersistSession ForkResult
| UserAccess
| Login LoginOptions

text \<open>The actions dispatched to the store and the two optional callbacks.\<close>

datatype action =
  stateLock
| sessionLockSync nat
| notification string string
| signout bool

datatype callback = onAuthorized | onUnauthorized

text \<open>
  The trace lists, in program order, each awaited call when it is issued and when its
  promise settles, each dispatched action and each callback fired.
\<close>

datatype event =
  Called call
| Settled call
| Dispatched action
| Fired callback

type_synonym promise = nat

text \<open>
  A call of \<^verbatim>\<open>login\<close> that is suspended at one of its two \<^verbatim>\<open>await\<close>s: at the storage write
  (line 169) or at \<^verbatim>\<open>checkSessionLock()\<close> (line 178).
\<close>

datatype suspended = AtWrite LoginOptions | AtLock LoginOptions

record state =
  status :: WorkerStatus
  pendingInit :: "promise option"
  lockStatus :: "SessionLockStatus option"
  authStore_UID :: "string option"
  authStore_password :: "string option"
  sessionStorage :: "string \<rightharpoonup> string"
  api_auth :: "ApiAuth option"
  api_listener :: bool
  settled :: "promise \<rightharpoonup> thrown + bool"
  fresh :: promise
  detached :: "suspended list"
  trace :: "event list"

text \<open>
  \<open>status\<close> is \<^verbatim>\<open>ctx.status\<close>; \<open>pendingInit\<close> and \<open>lockStatus\<close> are the two fields of
  \<^verbatim>\<open>authCtx\<close>. A promise is an address: \<open>settled s p\<close> is what promise \<open>p\<close> has settled
  to (\<open>Inl\<close> a rejection), \<open>None\<close> while it is pending, and \<open>fresh s\<close> is the next unused
  address. \<open>api_listener\<close> tells whether the listener of \<^verbatim>\<open>api.subscribe\<close> is installed.
  \<open>detached\<close> lists the calls of \<^verbatim>\<open>login\<close> that are still suspended although the
  \<^verbatim>\<open>Promise.all\<close> that awaited them has settled: nothing waits for them any more, and
  each goes on by itself once the call it awaits settles.
\<close>

text \<open>
  What the file imports without defining it, as parameters: \<^verbatim>\<open>workerReady\<close>, the
  truthiness of a \<^verbatim>\<open>SessionLockStatus\<close> member (the enum's values are not in the file and
  the cached status is tested with \<^verbatim>\<open>cachedLockStatus ? \<dots> : \<dots>\<close>), whether the two optional
  callbacks were supplied, the two application names and \<^verbatim>\<open>getApiErrorMessage\<close>.
\<close>

record deps =
  workerReady :: "WorkerStatus \<Rightarrow> bool"
  truthy :: "SessionLockStatus \<Rightarrow> bool"
  has_onAuthorized :: bool
  has_onUnauthorized :: bool
  PASS_APP_NAME :: string
  MAIL_APP_NAME :: string
  getApiErrorMessage :: "error \<Rightarrow> string option"

text \<open>
  How \<^verbatim>\<open>consumeFork\<close> can fail before it holds the result of the fork exchange:
  \<^verbatim>\<open>api.configure()\<close> throws (line 121, the one call of the handler that is outside its
  \<^verbatim>\<open>try\<close> block), or the awaited exchange rejects (lines 125 to 128).
\<close>

datatype fork_failure = ConfigureThrew thrown | ExchangeRejected thrown

text \<open>
  How the collaborators answer during one run of a method: each awaited call either
  rejects with the given value or resolves. \<open>consumeFork_result\<close> is how lines 121 to 128
  of \<^verbatim>\<open>consumeFork\<close> go. \<open>persistSession_after\<close> is the number of awaited calls of the
  concurrent \<^verbatim>\<open>login\<close> that settle before \<^verbatim>\<open>persistSession\<close> does. \<open>userAccess_error\<close> is
  the rejection of the handshake as the handler of its \<^verbatim>\<open>.catch\<close> reads it at line 144:
  there \<^verbatim>\<open>e.name\<close> of a rejection with \<^verbatim>\<open>undefined\<close> or \<^verbatim>\<open>null\<close> raises a \<^verbatim>\<open>TypeError\<close>,
  which leaves the handler in place of the rejection, as a rejection with that
  \<^verbatim>\<open>TypeError\<close> does.
\<close>

record env =
  getItems_error :: "thrown option"
  setItems_error :: "thrown option"
  checkSessionLock_result :: "thrown + SessionLock"
  getPersistedSession_result :: "thrown + PersistedSession option"
  resumeSession_result :: "thrown + LoginOptions option"
  consumeFork_result :: "fork_failure + ForkResult"
  persistSession_error :: "thrown option"
  persistSession_after :: nat
  userAccess_error :: "error option"

section \<open>The service\<close>

subsection \<open>Collaborators\<close>

definition emit :: "event \<Rightarrow> state \<Rightarrow> state" where
  "emit e s = s\<lparr>trace := trace s @ [e]\<rparr>"

text \<open>
  Modelled from the spec: \<^verbatim>\<open>ctx.setStatus\<close> of the worker context, which is not in the
  file. The spec's worker status is one current value that the service mutates.
\<close>

definition setStatus :: "WorkerStatus \<Rightarrow> state \<Rightarrow> state" where
  "setStatus v s = s\<lparr>status := v\<rparr>"

definition api_configure :: "ApiAuth option \<Rightarrow> state \<Rightarrow> state" where
  "api_configure a s = s\<lparr>api_auth := a\<rparr>"

definition api_unsubscribe :: "state \<Rightarrow> state" where
  "api_unsubscribe s = s\<lparr>api_listener := False\<rparr>"

definition api_subscribe :: "state \<Rightarrow> state" where
  "api_subscribe s = s\<lparr>api_listener := True\<rparr>"

text \<open>\<^verbatim>\<open>browserSessionStorage.setItems({ UID, keyPassword, AccessToken, RefreshToken })\<close>, resolved.\<close>

definition setItems :: "LoginOptions \<Rightarrow> state \<Rightarrow> state" where
  "setItems options s =
     s\<lparr>sessionStorage := (sessionStorage s)
         (''UID'' \<mapsto> UID options,
          ''keyPassword'' \<mapsto> keyPassword options,
          ''AccessToken'' \<mapsto> AccessToken options,
          ''RefreshToken'' \<mapsto> RefreshToken options)\<rparr>"

subsection \<open>lock, unlock, logout\<close>

definition lock :: "deps \<Rightarrow> state \<Rightarrow> state" where
  "lock d s =
     (let shouldLockState = workerReady d (status s);
          s1 = s\<lparr>lockStatus := Some LOCKED_SESSION\<rparr>;
          s2 = setStatus LOCKED s1
      in if shouldLockState then emit (Dispatched stateLock) s2 else s2)"

definition unlock :: "state \<Rightarrow> state" where
  "unlock s = s\<lparr>lockStatus := Some REGISTERED\<rparr>"

definition logout :: "deps \<Rightarrow> state \<Rightarrow> bool \<times> state" where
  "logout d s =
     (let s1 = s\<lparr>authStore_UID := None\<rparr>;
          s2 = s1\<lparr>authStore_password := None\<rparr>;
          s3 = api_unsubscribe s2;
          s4 = api_configure None s3;
          s5 = setStatus UNAUTHORIZED s4;
          s6 = (if has_onUnauthorized d then emit (Fired onUnauthorized) s5 else s5)
      in (True, s6))"

subsection \<open>login\<close>

text \<open>
  \<^verbatim>\<open>login\<close> suspends at most twice: at the storage write and, when no cached lock status
  is there, at \<^verbatim>\<open>checkSessionLock()\<close>. Its synchronous stretches are \<open>login_begin\<close> (up to
  the first \<^verbatim>\<open>await\<close>), \<open>login_configure\<close> (from the resolved write to the lock lookup) and
  \<open>login_resolve\<close> (from the lock on).
\<close>

definition login_begin :: "LoginOptions \<Rightarrow> state \<Rightarrow> state" where
  "login_begin options s = emit (Called (SetItems options)) (emit (Called (Login options)) s)"

definition login_configure :: "LoginOptions \<Rightarrow> state \<Rightarrow> state" where
  "login_configure options s =
     (let s1 = emit (Settled (SetItems options)) (setItems options s);
          s2 = api_configure (Some \<lparr>api_UID = UID options,
                 api_AccessToken = AccessToken options,
                 api_RefreshToken = RefreshToken options\<rparr>) s1;
          s3 = api_unsubscribe s2;
          s4 = s3\<lparr>authStore_UID := Some (UID options)\<rparr>
      in s4\<lparr>authStore_password := Some (keyPassword options)\<rparr>)"

text \<open>\<^verbatim>\<open>cachedLockStatus ? { status: cachedLockStatus } : await checkSessionLock()\<close>: the cached lock, if any.\<close>

definition cachedLock :: "deps \<Rightarrow> state \<Rightarrow> SessionLock option" where
  "cachedLock d s =
     (case lockStatus s of
        None \<Rightarrow> None
      | Some cachedLockStatus \<Rightarrow>
          if truthy d cachedLockStatus
          then Some \<lparr>lock_status = cachedLockStatus, lock_ttl = None\<rparr>
          else None)"

definition login_resolve :: "deps \<Rightarrow> SessionLock \<Rightarrow> state \<Rightarrow> bool \<times> state" where
  "login_resolve d lck s =
     (if lock_status lck = LOCKED_SESSION then (False, lock d s)
      else
        let s1 = (case lock_ttl lck of
                    Some ttl \<Rightarrow>
                      if lock_status lck = REGISTERED \<and> ttl \<noteq> 0
                      then emit (Dispatched (sessionLockSync ttl)) s else s
                  | None \<Rightarrow> s);
            s2 = api_subscribe s1;
            s3 = setStatus AUTHORIZED s2;
            s4 = (if has_onAuthorized d then emit (Fired onAuthorized) s3 else s3)
        in (True, s4))"

text \<open>The promise of \<^verbatim>\<open>login\<close> settles: with a value, or with the error of a rejected \<^verbatim>\<open>await\<close>.\<close>

definition login_return :: "LoginOptions \<Rightarrow> bool \<times> state \<Rightarrow> (thrown + bool) \<times> state" where
  "login_return options r = (Inr (fst r), emit (Settled (Login options)) (snd r))"

definition login_throw :: "LoginOptions \<Rightarrow> call \<Rightarrow> thrown \<Rightarrow> state \<Rightarrow> (thrown + bool) \<times> state" where
  "login_throw options c e s = (Inl e, emit (Settled (Login options)) (emit (Settled c) s))"

text \<open>From the moment \<^verbatim>\<open>checkSessionLock()\<close> settles (line 178) to the end.\<close>

definition login_after_lock :: "deps \<Rightarrow> env \<Rightarrow> LoginOptions \<Rightarrow> state \<Rightarrow> (thrown + bool) \<times> state" where
  "login_after_lock d env options s =
     (case checkSessionLock_result env of
        Inl e \<Rightarrow> login_throw options CheckSessionLock e s
      | Inr lck \<Rightarrow>
          login_return options (login_resolve d lck (emit (Settled CheckSessionLock) s)))"

text \<open>From the moment the storage write settles (line 169) to the end.\<close>

definition login_after_write :: "deps \<Rightarrow> env \<Rightarrow> LoginOptions \<Rightarrow> state \<Rightarrow> (thrown + bool) \<times> state" where
  "login_after_write d env options s =
     (case setItems_error env of
        Some e \<Rightarrow> login_throw options (SetItems options) e s
      | None \<Rightarrow>
          let s1 = login_configure options s in
          (case cachedLock d s1 of
             Some lck \<Rightarrow> login_return options (login_resolve d lck s1)
           | None \<Rightarrow> login_after_lock d env options (emit (Called CheckSessionLock) s1)))"

definition login :: "deps \<Rightarrow> env \<Rightarrow> LoginOptions \<Rightarrow> state \<Rightarrow> (thrown + bool) \<times> state" where
  "login d env options s = login_after_write d env options (login_begin options s)"

text \<open>
  The listener that \<^verbatim>\<open>login\<close> hands to \<^verbatim>\<open>api.subscribe\<close> (lines 192 to 226). A
  \<^verbatim>\<open>session\<close> event carries a status; the \<^verbatim>\<open>error\<close> case is empty.
\<close>

datatype api_event = session_event string | other_event

definition listener :: "deps \<Rightarrow> api_event \<Rightarrow> state \<Rightarrow> state" where
  "listener d ev s =
     (case ev of
        session_event st \<Rightarrow>
          let s1 = api_unsubscribe s in
          if st = ''inactive''
          then emit (Dispatched (signout False))
                 (emit (Dispatched (notification ''error'' ''Please log back in'')) s1)
          else if st = ''locked''
          then emit (Dispatched (notification ''error''
                   ''Your session was locked due to inactivity'')) (lock d s1)
          else s1
      | other_event \<Rightarrow> s)"

subsection \<open>resumeSession\<close>

text \<open>
  The \<^verbatim>\<open>catch\<close> block of \<^verbatim>\<open>resumeSession\<close> (lines 277 to 289). A description that is
  \<^verbatim>\<open>undefined\<close> prints as that word in the template string; a caught \<^verbatim>\<open>undefined\<close> or
  \<^verbatim>\<open>null\<close> is no instance of \<^verbatim>\<open>Error\<close>.
\<close>

definition resume_catch :: "deps \<Rightarrow> thrown \<Rightarrow> state \<Rightarrow> (thrown + bool) \<times> state" where
  "resume_catch d e s =
     (let s1 = setStatus RESUMING_FAILED s;
          description =
            (case e of
               Nullish \<Rightarrow> []
             | Thrown err \<Rightarrow>
                 if instanceof_Error err
                 then (case getApiErrorMessage d err of
                         Some m \<Rightarrow> m
                       | None \<Rightarrow> (case err_message err of Some m \<Rightarrow> m | None \<Rightarrow> ''undefined''))
                 else [])
      in (Inr False,
          emit (Dispatched (notification ''error''
                  (''Could not resume your session : '' @ description))) s1))"

definition resumeSession :: "deps \<Rightarrow> env \<Rightarrow> state \<Rightarrow> (thrown + bool) \<times> state" where
  "resumeSession d env s =
     (let s1 = setStatus RESUMING s;
          s2 = emit (Called GetPersistedSession) s1
      in case getPersistedSession_result env of
           Inl e \<Rightarrow> (Inl e, emit (Settled GetPersistedSession) s2)
         | Inr None \<Rightarrow>
             (Inr False, setStatus UNAUTHORIZED (emit (Settled GetPersistedSession) s2))
         | Inr (Some persistedSession) \<Rightarrow>
             let s3 = emit (Settled GetPersistedSession) s2;
                 s4 = api_configure (Some \<lparr>api_UID = ps_UID persistedSession,
                        api_AccessToken = ps_AccessToken persistedSession,
                        api_RefreshToken = ps_RefreshToken persistedSession\<rparr>) s3;
                 s5 = emit (Called (ResumeSession persistedSession)) s4;
                 s6 = emit (Settled (ResumeSession persistedSession)) s5
             in (case resumeSession_result env of
                   Inl e \<Rightarrow> resume_catch d e s6
                 | Inr None \<Rightarrow> (Inr False, setStatus UNAUTHORIZED s6)
                 | Inr (Some session) \<Rightarrow>
                     (case login d env session s6 of
                        (Inl e, s7) \<Rightarrow> resume_catch d e s7
                      | (Inr b, s7) \<Rightarrow> (Inr b, s7))))"

subsection \<open>init\<close>

text \<open>
  \<^verbatim>\<open>init\<close> has three synchronous stretches. \<open>init_enter\<close> is the call itself, up to its
  \<^verbatim>\<open>await\<close> (lines 86 to 110): with the slot taken it returns the promise in the slot;
  otherwise it starts the inner function, which issues the storage read, and stores the
  inner function's promise in the slot. It yields the promise the caller now waits for
  and whether this call started the attempt. \<open>init_attempt\<close> is the inner function from
  the settled read on (lines 95 to 106), \<open>init_resume\<close> the continuation of the call that
  started the attempt (lines 110 to 113).
\<close>

definition init_enter :: "state \<Rightarrow> (promise \<times> bool) \<times> state" where
  "init_enter s =
     (case pendingInit s of
        Some p \<Rightarrow> ((p, False), s)
      | None \<Rightarrow>
          let p = fresh s;
              s1 = emit (Called GetItems) s
          in ((p, True), s1\<lparr>fresh := Suc p, pendingInit := Some p\<rparr>))"

text \<open>\<^verbatim>\<open>UID && keyPassword && AccessToken && RefreshToken\<close>: each stored and not the empty string.\<close>

definition storedOptions :: "state \<Rightarrow> LoginOptions option" where
  "storedOptions s =
     (case (sessionStorage s ''UID'', sessionStorage s ''keyPassword'',
            sessionStorage s ''AccessToken'', sessionStorage s ''RefreshToken'') of
        (Some u, Some k, Some a, Some r) \<Rightarrow>
          if u \<noteq> [] \<and> k \<noteq> [] \<and> a \<noteq> [] \<and> r \<noteq> []
          then Some \<lparr>UID = u, AccessToken = a, RefreshToken = r, keyPassword = k\<rparr>
          else None
      | _ \<Rightarrow> None)"

definition init_attempt :: "deps \<Rightarrow> env \<Rightarrow> state \<Rightarrow> (thrown + bool) \<times> state" where
  "init_attempt d env s =
     (let s1 = emit (Settled GetItems) s in
      case getItems_error env of
        Some e \<Rightarrow> (Inl e, s1)
      | None \<Rightarrow>
          (case storedOptions s1 of
             Some options \<Rightarrow> login d env options s1
           | None \<Rightarrow> resumeSession d env s1))"

definition settle :: "promise \<Rightarrow> thrown + bool \<Rightarrow> state \<Rightarrow> state" where
  "settle p r s = s\<lparr>settled := (settled s)(p \<mapsto> r)\<rparr>"

text \<open>
  \<^verbatim>\<open>const result = await authCtx.pendingInit; authCtx.pendingInit = null; return result\<close>:
  a rejected promise throws at the \<^verbatim>\<open>await\<close>, and the assignment is not reached. \<open>None\<close>
  is a call that still waits.
\<close>

definition init_resume :: "promise \<Rightarrow> state \<Rightarrow> (thrown + bool) option \<times> state" where
  "init_resume p s =
     (case settled s p of
        None \<Rightarrow> (None, s)
      | Some (Inl e) \<Rightarrow> (Some (Inl e), s)
      | Some (Inr result) \<Rightarrow> (Some (Inr result), s\<lparr>pendingInit := None\<rparr>))"

text \<open>
  One call of \<^verbatim>\<open>init\<close> run to its end with nothing else running: a call that finds the
  slot taken resolves as the promise in the slot does.
\<close>

definition init :: "deps \<Rightarrow> env \<Rightarrow> state \<Rightarrow> (thrown + bool) option \<times> state" where
  "init d env s =
     (case init_enter s of
        ((p, False), s1) \<Rightarrow> (settled s1 p, s1)
      | ((p, True), s1) \<Rightarrow>
          (case init_attempt d env s1 of
             (r, s2) \<Rightarrow> init_resume p (settle p r s2)))"

subsection \<open>consumeFork\<close>

definition welcome_payload :: "deps \<Rightarrow> Payload" where
  "welcome_payload d =
     \<lparr>title = ''Welcome to '' @ PASS_APP_NAME d,
      message = ''More than a password manager, '' @ PASS_APP_NAME d @
        '' protects your password and your personal email address via email aliases. Powered by the same technology behind '' @
        MAIL_APP_NAME d @
        '', your data is end to end encrypted and is only accessible by you.''\<rparr>"

text \<open>
  The \<^verbatim>\<open>catch\<close> block of \<^verbatim>\<open>consumeFork\<close> (lines 156 to 164). It sets the status first
  (line 157) and then throws (lines 158 to 163). \<open>fork_rethrow\<close> is what the \<^verbatim>\<open>throw\<close>
  statement throws for the caught value: building the object reads \<^verbatim>\<open>error.title\<close> and
  \<^verbatim>\<open>error.message\<close>, which raises a \<^verbatim>\<open>TypeError\<close> instead when the caught value is
  \<^verbatim>\<open>undefined\<close> or \<^verbatim>\<open>null\<close>.
\<close>

definition fork_rethrow :: "deps \<Rightarrow> thrown \<Rightarrow> rejection" where
  "fork_rethrow d e =
     (case e of
        Nullish \<Rightarrow> RawTypeError
      | Thrown err \<Rightarrow>
          WithPayload
            \<lparr>title = (case err_title err of Some t \<Rightarrow> t | None \<Rightarrow> ''Something went wrong''),
             message = (case err_message err of
                          Some m \<Rightarrow> m
                        | None \<Rightarrow> ''Unable to login to '' @ PASS_APP_NAME d)\<rparr>)"

definition fork_catch :: "deps \<Rightarrow> thrown \<Rightarrow> state \<Rightarrow> (rejection + Payload) \<times> state" where
  "fork_catch d e s =
     (let s1 = setStatus UNAUTHORIZED s
      in (Inl (fork_rethrow d e), s1))"

text \<open>
  \<^verbatim>\<open>Promise.all([persistSession(api, result), authService.login(\<dots>)])\<close> (lines 131 to 139).
  Both calls are made when the array is built: \<^verbatim>\<open>persistSession\<close> first, then \<^verbatim>\<open>login\<close>,
  which runs up to its first \<^verbatim>\<open>await\<close>. From there the two run side by side, and
  \<open>persistSession_after env\<close> places the moment \<^verbatim>\<open>persistSession\<close> settles among the
  awaited calls of \<^verbatim>\<open>login\<close>. \<^verbatim>\<open>Promise.all\<close> rejects with the first rejection and
  resolves once both have resolved; the state returned is the one at that moment.

  \<open>persist_settles\<close> is \<^verbatim>\<open>persistSession\<close> settling while \<^verbatim>\<open>login\<close> is suspended. When it
  rejects, \<^verbatim>\<open>Promise.all\<close> rejects at once; the suspended \<^verbatim>\<open>login\<close> is not cancelled, it
  joins the detached calls of the state. \<open>persist_last\<close> is \<^verbatim>\<open>persistSession\<close> settling
  after \<^verbatim>\<open>login\<close> has returned.
\<close>

definition persist_settles ::
    "env \<Rightarrow> ForkResult \<Rightarrow> suspended \<Rightarrow> state \<Rightarrow> (state \<Rightarrow> (thrown + bool) \<times> state) \<Rightarrow>
       (thrown + bool) \<times> state" where
  "persist_settles env result task s rest =
     (let s1 = emit (Settled (PersistSession result)) s in
      case persistSession_error env of
        Some e \<Rightarrow> (Inl e, s1\<lparr>detached := detached s1 @ [task]\<rparr>)
      | None \<Rightarrow> rest s1)"

definition persist_last :: "env \<Rightarrow> ForkResult \<Rightarrow> (thrown + bool) \<times> state \<Rightarrow> (thrown + bool) \<times> state" where
  "persist_last env result r =
     (case r of
        (Inl e, s) \<Rightarrow> (Inl e, s)
      | (Inr b, s) \<Rightarrow>
          let s1 = emit (Settled (PersistSession result)) s in
          (case persistSession_error env of
             Some e \<Rightarrow> (Inl e, s1)
           | None \<Rightarrow> (Inr b, s1)))"

definition promise_all ::
    "deps \<Rightarrow> env \<Rightarrow> ForkResult \<Rightarrow> LoginOptions \<Rightarrow> state \<Rightarrow> (thrown + bool) \<times> state" where
  "promise_all d env result options s =
     (let s1 = emit (Called (PersistSession result)) s;
          s2 = login_begin options s1
      in if persistSession_after env = 0
         then persist_settles env result (AtWrite options) s2 (login_after_write d env options)
         else
           (case setItems_error env of
              Some e \<Rightarrow> login_throw options (SetItems options) e s2
            | None \<Rightarrow>
                let s3 = login_configure options s2 in
                (case cachedLock d s3 of
                   Some lck \<Rightarrow>
                     persist_last env result (login_return options (login_resolve d lck s3))
                 | None \<Rightarrow>
                     let s4 = emit (Called CheckSessionLock) s3 in
                     if persistSession_after env = 1
                     then persist_settles env result (AtLock options) s4
                            (login_after_lock d env options)
                     else persist_last env result (login_after_lock d env options s4))))"

text \<open>
  A detached \<^verbatim>\<open>login\<close> goes on from the \<^verbatim>\<open>await\<close> it is suspended at; what its promise
  settles to reaches nobody. \<open>run_detached\<close> lets every detached call run to its end.
\<close>

definition resume_login :: "deps \<Rightarrow> env \<Rightarrow> suspended \<Rightarrow> state \<Rightarrow> state" where
  "resume_login d env task s =
     (case task of
        AtWrite options \<Rightarrow> snd (login_after_write d env options s)
      | AtLock options \<Rightarrow> snd (login_after_lock d env options s))"

definition run_detached :: "deps \<Rightarrow> env \<Rightarrow> state \<Rightarrow> state" where
  "run_detached d env s = fold (resume_login d env) (detached s) (s\<lparr>detached := []\<rparr>)"

text \<open>The argument of the call of \<^verbatim>\<open>login\<close> at lines 133 to 138.\<close>

definition fork_options :: "ForkResult \<Rightarrow> ForkPayload \<Rightarrow> LoginOptions" where
  "fork_options result data =
     \<lparr>UID = fork_UID result,
      AccessToken = fork_AccessToken result,
      RefreshToken = fork_RefreshToken result,
      keyPassword = fork_keyPassword data\<rparr>"

text \<open>\<^verbatim>\<open>consumeFork\<close> up to its \<^verbatim>\<open>Promise.all\<close> when the fork exchange has settled (lines 121 to 129).\<close>

definition fork_begun :: "ForkPayload \<Rightarrow> state \<Rightarrow> state" where
  "fork_begun data s =
     emit (Settled (ConsumeFork data)) (emit (Called (ConsumeFork data))
       (setStatus AUTHORIZING (api_configure None s)))"

text \<open>
  \<^verbatim>\<open>consumeFork\<close> (lines 120 to 165). What \<^verbatim>\<open>api.configure()\<close> throws at line 121 leaves the
  handler as it is, nothing else having run. Everything after it is inside the \<^verbatim>\<open>try\<close>
  block. The handler of the handshake's \<^verbatim>\<open>.catch\<close> throws an error again unless its name
  is \<open>LockedSession\<close>.
\<close>

definition consumeFork :: "deps \<Rightarrow> env \<Rightarrow> ForkPayload \<Rightarrow> state \<Rightarrow> (rejection + Payload) \<times> state" where
  "consumeFork d env data s =
     (case consumeFork_result env of
        Inl (ConfigureThrew e) \<Rightarrow> (Inl (Raw e), s)
      | Inl (ExchangeRejected e) \<Rightarrow> fork_catch d e (fork_begun data s)
      | Inr result \<Rightarrow>
          (case promise_all d env result (fork_options result data) (fork_begun data s) of
             (Inl e, s4) \<Rightarrow> fork_catch d e s4
           | (Inr _, s4) \<Rightarrow>
               let s5 = emit (Settled UserAccess) (emit (Called UserAccess) s4) in
               (case userAccess_error env of
                  None \<Rightarrow> (Inr (welcome_payload d), s5)
                | Some e \<Rightarrow>
                    if err_name e \<noteq> Some ''LockedSession''
                    then fork_catch d (Thrown e) s5
                    else (Inr (welcome_payload d), s5))))"

section \<open>Traces\<close>

text \<open>The events a run appended to the trace, and "no \<open>b\<close> before the first \<open>a\<close>".\<close>

definition new_events :: "state \<Rightarrow> state \<Rightarrow> event list" where
  "new_events s s' = drop (length (trace s)) (trace s')"

definition never_before :: "event \<Rightarrow> event \<Rightarrow> event list \<Rightarrow> bool" where
  "never_before a b t = (b \<notin> set (takeWhile (\<lambda>e. e \<noteq> a) t))"

text \<open>The number of storage reads issued so far: one per attempt that \<^verbatim>\<open>init\<close> started.\<close>

definition reads :: "state \<Rightarrow> nat" where
  "reads s = count_list (trace s) (Called GetItems)"

section \<open>Interleaved calls of init\<close>

text \<open>
  The worker runs one synchronous stretch at a time; between two stretches of one method
  any stretch of another may run. \<open>effect\<close> lists the single state changes out of which
  every method but \<^verbatim>\<open>init\<close> is made: an event other than the storage read of \<^verbatim>\<open>init\<close>,
  a status, the transport's configuration and listener, a storage write, the cached lock
  status, the two fields of the authentication store and the list of detached calls.
\<close>

inductive effect :: "state \<Rightarrow> state \<Rightarrow> bool" where
  eff_emit: "e \<noteq> Called GetItems \<Longrightarrow> effect s (emit e s)"
| eff_setStatus: "effect s (setStatus v s)"
| eff_configure: "effect s (api_configure a s)"
| eff_unsubscribe: "effect s (api_unsubscribe s)"
| eff_subscribe: "effect s (api_subscribe s)"
| eff_setItems: "effect s (setItems options s)"
| eff_lockStatus: "effect s (s\<lparr>lockStatus := v\<rparr>)"
| eff_UID: "effect s (s\<lparr>authStore_UID := u\<rparr>)"
| eff_password: "effect s (s\<lparr>authStore_password := k\<rparr>)"
| eff_detached: "effect s (s\<lparr>detached := ts\<rparr>)"

text \<open>
  A world is the service's state together with the calls of \<^verbatim>\<open>init\<close> in progress:
  \<open>waiting\<close> holds the promises whose starting call is suspended at line 110, \<open>running\<close>
  the promises whose inner function (lines 94 to 107) has issued its storage read and has
  not run on yet. \<open>executed\<close> is the log of the inner functions that did run on: for
  which promise, with which answers of the collaborators, from which state.
\<close>

record world =
  svc :: state
  waiting :: "promise set"
  running :: "promise set"
  executed :: "(promise \<times> env \<times> state) list"

text \<open>A call of \<^verbatim>\<open>init\<close>, up to its \<^verbatim>\<open>await\<close> or its early \<^verbatim>\<open>return\<close>.\<close>

definition init_call :: "world \<Rightarrow> (promise \<times> bool) \<times> world" where
  "init_call w =
     (case init_enter (svc w) of
        ((p, started), s') \<Rightarrow>
          ((p, started),
           w\<lparr>svc := s',
             waiting := (if started then insert p (waiting w) else waiting w),
             running := (if started then insert p (running w) else running w)\<rparr>))"

text \<open>
  The inner function behind promise \<open>p\<close> runs on from its settled storage read to its end:
  it is \<open>init_attempt\<close>, that is the read's answer followed by \<^verbatim>\<open>login\<close> or by
  \<^verbatim>\<open>resumeSession\<close>, and what it returns or throws settles \<open>p\<close>. It is one step of the
  world. Its stretches are made of effects, none of which touches the slot, the promises
  or the storage reads (lemmas \<open>effects_init_attempt\<close> and \<open>effect_keeps\<close>): a call of
  \<^verbatim>\<open>init\<close> made while the inner function is suspended inside \<^verbatim>\<open>login\<close> or
  \<^verbatim>\<open>resumeSession\<close> finds the slot and the promise that a call made just before this
  step finds (lemma \<open>init_enter_effects\<close>).
\<close>

definition run_attempt :: "deps \<Rightarrow> env \<Rightarrow> promise \<Rightarrow> world \<Rightarrow> world" where
  "run_attempt d env p w =
     (case init_attempt d env (svc w) of
        (r, s') \<Rightarrow>
          w\<lparr>svc := settle p r s',
            running := running w - {p},
            executed := executed w @ [(p, env, svc w)]\<rparr>)"

text \<open>
  The steps of a world: a call of \<^verbatim>\<open>init\<close>; an effect of a stretch of some other method;
  an inner function in flight runs on, with any answers of the collaborators, and settles
  its promise; a suspended call goes on once its promise has settled.
\<close>

inductive step :: "deps \<Rightarrow> world \<Rightarrow> world \<Rightarrow> bool" for d where
  step_call: "init_call w = (h, w') \<Longrightarrow> step d w w'"
| step_effect: "effect (svc w) s' \<Longrightarrow> step d w (w\<lparr>svc := s'\<rparr>)"
| step_attempt: "p \<in> running w \<Longrightarrow> step d w (run_attempt d env p w)"
| step_resume: "p \<in> waiting w \<Longrightarrow> init_resume p (svc w) = (Some r, s') \<Longrightarrow>
     step d w (w\<lparr>svc := s', waiting := waiting w - {p}\<rparr>)"

text \<open>
  The worlds that arise from a service as \<^verbatim>\<open>createAuthService\<close> makes it (line 59: the slot
  is empty), before any promise of \<^verbatim>\<open>init\<close> exists.
\<close>

inductive reachable :: "deps \<Rightarrow> world \<Rightarrow> bool" for d where
  reach_init: "pendingInit (svc w) = None \<Longrightarrow> settled (svc w) = Map.empty \<Longrightarrow>
     waiting w = {} \<Longrightarrow> running w = {} \<Longrightarrow> executed w = [] \<Longrightarrow> reachable d w"
| reach_step: "reachable d w \<Longrightarrow> step d w w' \<Longrightarrow> reachable d w'"

text \<open>The runs of the inner function behind promise \<open>p\<close> so far: answers and starting state.\<close>

definition attempts_of :: "world \<Rightarrow> promise \<Rightarrow> (env \<times> state) list" where
  "attempts_of w p = map snd (filter (\<lambda>x. fst x = p) (executed w))"

text \<open>
  What a call of \<^verbatim>\<open>init\<close> that waits for promise \<open>p\<close> resolves to in state \<open>s\<close>: the
  call that started the attempt runs its continuation, any other call returned the
  promise itself.
\<close>

definition init_outcome :: "bool \<Rightarrow> promise \<Rightarrow> state \<Rightarrow> (thrown + bool) option" where
  "init_outcome started p s = (if started then fst (init_resume p s) else settled s p)"

text \<open>
  A call of \<^verbatim>\<open>init\<close> is pending, if it started the attempt, until its continuation has
  run; if it returned the promise in the slot, until that promise settles.
\<close>

definition still_pending :: "bool \<Rightarrow> promise \<Rightarrow> world \<Rightarrow> bool" where
  "still_pending started p w = (if started then p \<in> waiting w else settled (svc w) p = None)"

text \<open>
  What the proofs keep along the steps. A suspended call waits for the promise in the
  slot, which is allocated; an inner function in flight has its starting call suspended;
  a promise that has not settled has no run behind it, and one that has settled has
  exactly one, whose result it holds; the slot holds the promise of a suspended call or a
  rejected one; a promise not yet allocated has not settled.
\<close>

definition world_inv :: "deps \<Rightarrow> world \<Rightarrow> bool" where
  "world_inv d w =
     ((\<forall>p\<in>waiting w. pendingInit (svc w) = Some p \<and> p < fresh (svc w)) \<and>
      running w \<subseteq> waiting w \<and>
      (\<forall>p. settled (svc w) p = None \<longrightarrow> attempts_of w p = []) \<and>
      (\<forall>p r. settled (svc w) p = Some r \<longrightarrow>
         p \<notin> running w \<and>
         (\<exists>env s. attempts_of w p = [(env, s)] \<and> r = fst (init_attempt d env s))) \<and>
      (\<forall>p. pendingInit (svc w) = Some p \<longrightarrow>
         p \<in> waiting w \<or> (\<exists>e. settled (svc w) p = Some (Inl e))) \<and>
      (\<forall>p. fresh (svc w) \<le> p \<longrightarrow> settled (svc w) p = None))"

section \<open>Concrete inputs\<close>

text \<open>
  A service whose callbacks are supplied, one set of credentials, a worker that has not
  logged in yet, and collaborators that all succeed, for a session without a lock.
\<close>

definition deps0 :: deps where
  "deps0 = \<lparr>workerReady = (\<lambda>st. st = AUTHORIZED), truthy = (\<lambda>_. True),
     has_onAuthorized = True, has_onUnauthorized = True,
     PASS_APP_NAME = ''Proton Pass'', MAIL_APP_NAME = ''Proton Mail'',
     getApiErrorMessage = (\<lambda>_. None)\<rparr>"

definition creds :: LoginOptions where
  "creds = \<lparr>UID = ''uid'', AccessToken = ''access'', RefreshToken = ''refresh'',
     keyPassword = ''key''\<rparr>"

definition idle :: state where
  "idle = \<lparr>status = UNAUTHORIZED, pendingInit = None, lockStatus = None,
     authStore_UID = None, authStore_password = None, sessionStorage = Map.empty,
     api_auth = None, api_listener = False, settled = Map.empty, fresh = 0, detached = [],
     trace = []\<rparr>"

definition env_ok :: env where
  "env_ok = \<lparr>getItems_error = None, setItems_error = None,
     checkSessionLock_result = Inr \<lparr>lock_status = NONE, lock_ttl = None\<rparr>,
     getPersistedSession_result = Inr None,
     resumeSession_result = Inr None,
     consumeFork_result = Inr \<lparr>fork_UID = ''uid'', fork_AccessToken = ''access'',
       fork_RefreshToken = ''refresh''\<rparr>,
     persistSession_error = None, persistSession_after = 0, userAccess_error = None\<rparr>"

definition env_locked :: env where
  "env_locked =
     env_ok\<lparr>checkSessionLock_result := Inr \<lparr>lock_status = LOCKED_SESSION, lock_ttl = None\<rparr>\<rparr>"

text \<open>
  A worker restarted with the four credentials still in session storage, and a lock-status
  endpoint that cannot be reached.
\<close>

definition stored :: state where
  "stored = setItems creds idle"

definition offline :: error where
  "offline = \<lparr>err_name = Some ''OfflineError'', err_title = None,
     err_message = Some ''No network connection'', instanceof_Error = True\<rparr>"

definition env_offline :: env where
  "env_offline = env_ok\<lparr>checkSessionLock_result := Inl (Thrown offline)\<rparr>"

text \<open>A fork message, what its exchange yields, and a handshake that fails.\<close>

definition data0 :: ForkPayload where
  "data0 = \<lparr>fork_keyPassword = ''key'', fork_rest = ''selector''\<rparr>"

definition forked :: ForkResult where
  "forked = \<lparr>fork_UID = ''uid'', fork_AccessToken = ''access'', fork_RefreshToken = ''refresh''\<rparr>"

definition locked_session :: error where
  "locked_session = \<lparr>err_name = Some ''LockedSession'', err_title = None,
     err_message = Some ''Session locked'', instanceof_Error = True\<rparr>"

definition env_access_locked :: env where
  "env_access_locked = env_ok\<lparr>userAccess_error := Some locked_session\<rparr>"

definition env_access_offline :: env where
  "env_access_offline = env_ok\<lparr>userAccess_error := Some offline\<rparr>"

text \<open>
  A session storage that refuses the write, and a worker whose cached lock status says
  that the session is locked.
\<close>

definition quota_exceeded :: error where
  "quota_exceeded = \<lparr>err_name = Some ''QuotaExceededError'', err_title = None,
     err_message = Some ''Quota exceeded'', instanceof_Error = True\<rparr>"

definition env_write_fails :: env where
  "env_write_fails = env_ok\<lparr>setItems_error := Some (Thrown quota_exceeded)\<rparr>"

definition hinted :: state where
  "hinted = idle\<lparr>lockStatus := Some LOCKED_SESSION\<rparr>"







text \<open>
  A restarted worker on which \<^verbatim>\<open>init\<close> has not been called yet; the world after its
  first call; that world after \<^verbatim>\<open>unlock\<close> has run meanwhile; the world after the inner
  function has then run on, every collaborator succeeding.
\<close>

definition world0 :: world where
  "world0 = \<lparr>svc = stored, waiting = {}, running = {}, executed = []\<rparr>"

definition world1 :: world where
  "world1 = snd (init_call world0)"

definition world2 :: world where
  "world2 = world1\<lparr>svc := unlock (svc world1)\<rparr>"

definition world3 :: world where
  "world3 = run_attempt deps0 env_ok 0 world2"

section \<open>Basic facts\<close>

subsection \<open>What each stretch does to each field\<close>

lemma emit_fields [simp]:
  "status (emit e s) = status s"
  "pendingInit (emit e s) = pendingInit s"
  "lockStatus (emit e s) = lockStatus s"
  "authStore_UID (emit e s) = authStore_UID s"
  "authStore_password (emit e s) = authStore_password s"
  "sessionStorage (emit e s) = sessionStorage s"
  "api_auth (emit e s) = api_auth s"
  "api_listener (emit e s) = api_listener s"
  "settled (emit e s) = settled s"
  "fresh (emit e s) = fresh s"
  "detached (emit e s) = detached s"
  "trace (emit e s) = trace s @ [e]"
  by (simp_all add: emit_def)

lemma setStatus_fields [simp]:
  "status (setStatus v s) = v"
  "pendingInit (setStatus v s) = pendingInit s"
  "lockStatus (setStatus v s) = lockStatus s"
  "authStore_UID (setStatus v s) = authStore_UID s"
  "authStore_password (setStatus v s) = authStore_password s"
  "sessionStorage (setStatus v s) = sessionStorage s"
  "api_auth (setStatus v s) = api_auth s"
  "api_listener (setStatus v s) = api_listener s"
  "settled (setStatus v s) = settled s"
  "fresh (setStatus v s) = fresh s"
  "detached (setStatus v s) = detached s"
  "trace (setStatus v s) = trace s"
  by (simp_all add: setStatus_def)

lemma api_configure_fields [simp]:
  "status (api_configure a s) = status s"
  "pendingInit (api_configure a s) = pendingInit s"
  "lockStatus (api_configure a s) = lockStatus s"
  "authStore_UID (api_configure a s) = authStore_UID s"
  "authStore_password (api_configure a s) = authStore_password s"
  "sessionStorage (api_configure a s) = sessionStorage s"
  "api_auth (api_configure a s) = a"
  "api_listener (api_configure a s) = api_listener s"
  "settled (api_configure a s) = settled s"
  "fresh (api_configure a s) = fresh s"
  "detached (api_configure a s) = detached s"
  "trace (api_configure a s) = trace s"
  by (simp_all add: api_configure_def)

lemma api_unsubscribe_fields [simp]:
  "status (api_unsubscribe s) = status s"
  "pendingInit (api_unsubscribe s) = pendingInit s"
  "lockStatus (api_unsubscribe s) = lockStatus s"
  "authStore_UID (api_unsubscribe s) = authStore_UID s"
  "authStore_password (api_unsubscribe s) = authStore_password s"
  "sessionStorage (api_unsubscribe s) = sessionStorage s"
  "api_auth (api_unsubscribe s) = api_auth s"
  "api_listener (api_unsubscribe s) = False"
  "settled (api_unsubscribe s) = settled s"
  "fresh (api_unsubscribe s) = fresh s"
  "detached (api_unsubscribe s) = detached s"
  "trace (api_unsubscribe s) = trace s"
  by (simp_all add: api_unsubscribe_def)

lemma api_subscribe_fields [simp]:
  "status (api_subscribe s) = status s"
  "pendingInit (api_subscribe s) = pendingInit s"
  "lockStatus (api_subscribe s) = lockStatus s"
  "authStore_UID (api_subscribe s) = authStore_UID s"
  "authStore_password (api_subscribe s) = authStore_password s"
  "sessionStorage (api_subscribe s) = sessionStorage s"
  "api_auth (api_subscribe s) = api_auth s"
  "api_listener (api_subscribe s) = True"
  "settled (api_subscribe s) = settled s"
  "fresh (api_subscribe s) = fresh s"
  "detached (api_subscribe s) = detached s"
  "trace (api_subscribe s) = trace s"
  by (simp_all add: api_subscribe_def)

lemma setItems_fields [simp]:
  "status (setItems options s) = status s"
  "pendingInit (setItems options s) = pendingInit s"
  "lockStatus (setItems options s) = lockStatus s"
  "authStore_UID (setItems options s) = authStore_UID s"
  "authStore_password (setItems options s) = authStore_password s"
  "api_auth (setItems options s) = api_auth s"
  "api_listener (setItems options s) = api_listener s"
  "settled (setItems options s) = settled s"
  "fresh (setItems options s) = fresh s"
  "detached (setItems options s) = detached s"
  "trace (setItems options s) = trace s"
  by (simp_all add: setItems_def)

lemma settle_fields [simp]:
  "status (settle p r s) = status s"
  "pendingInit (settle p r s) = pendingInit s"
  "lockStatus (settle p r s) = lockStatus s"
  "authStore_UID (settle p r s) = authStore_UID s"
  "authStore_password (settle p r s) = authStore_password s"
  "sessionStorage (settle p r s) = sessionStorage s"
  "api_auth (settle p r s) = api_auth s"
  "api_listener (settle p r s) = api_listener s"
  "settled (settle p r s) = (settled s)(p \<mapsto> r)"
  "fresh (settle p r s) = fresh s"
  "detached (settle p r s) = detached s"
  "trace (settle p r s) = trace s"
  by (simp_all add: settle_def)

lemma unlock_fields [simp]:
  "status (unlock s) = status s"
  "pendingInit (unlock s) = pendingInit s"
  "lockStatus (unlock s) = Some REGISTERED"
  "authStore_UID (unlock s) = authStore_UID s"
  "authStore_password (unlock s) = authStore_password s"
  "sessionStorage (unlock s) = sessionStorage s"
  "api_auth (unlock s) = api_auth s"
  "api_listener (unlock s) = api_listener s"
  "settled (unlock s) = settled s"
  "fresh (unlock s) = fresh s"
  "detached (unlock s) = detached s"
  "trace (unlock s) = trace s"
  by (simp_all add: unlock_def)

lemma lock_fields [simp]:
  "status (lock d s) = LOCKED"
  "pendingInit (lock d s) = pendingInit s"
  "lockStatus (lock d s) = Some LOCKED_SESSION"
  "authStore_UID (lock d s) = authStore_UID s"
  "authStore_password (lock d s) = authStore_password s"
  "sessionStorage (lock d s) = sessionStorage s"
  "api_auth (lock d s) = api_auth s"
  "api_listener (lock d s) = api_listener s"
  "settled (lock d s) = settled s"
  "fresh (lock d s) = fresh s"
  "detached (lock d s) = detached s"
  "trace (lock d s) = trace s @ (if workerReady d (status s) then [Dispatched stateLock] else [])"
  by (simp_all add: lock_def Let_def)

lemma login_begin_fields [simp]:
  "status (login_begin options s) = status s"
  "pendingInit (login_begin options s) = pendingInit s"
  "lockStatus (login_begin options s) = lockStatus s"
  "authStore_UID (login_begin options s) = authStore_UID s"
  "authStore_password (login_begin options s) = authStore_password s"
  "sessionStorage (login_begin options s) = sessionStorage s"
  "api_auth (login_begin options s) = api_auth s"
  "api_listener (login_begin options s) = api_listener s"
  "settled (login_begin options s) = settled s"
  "fresh (login_begin options s) = fresh s"
  "detached (login_begin options s) = detached s"
  "trace (login_begin options s) = trace s @ [Called (Login options), Called (SetItems options)]"
  by (simp_all add: login_begin_def)

lemma login_configure_fields [simp]:
  "status (login_configure options s) = status s"
  "pendingInit (login_configure options s) = pendingInit s"
  "lockStatus (login_configure options s) = lockStatus s"
  "authStore_UID (login_configure options s) = Some (UID options)"
  "authStore_password (login_configure options s) = Some (keyPassword options)"
  "sessionStorage (login_configure options s) = sessionStorage (setItems options s)"
  "api_auth (login_configure options s) = Some \<lparr>api_UID = UID options, api_AccessToken = AccessToken options, api_RefreshToken = RefreshToken options\<rparr>"
  "api_listener (login_configure options s) = False"
  "settled (login_configure options s) = settled s"
  "fresh (login_configure options s) = fresh s"
  "detached (login_configure options s) = detached s"
  "trace (login_configure options s) = trace s @ [Settled (SetItems options)]"
  by (simp_all add: login_configure_def Let_def)

lemma setItems_storage [simp]:
  "sessionStorage (setItems options s) ''UID'' = Some (UID options)"
  "sessionStorage (setItems options s) ''AccessToken'' = Some (AccessToken options)"
  "sessionStorage (setItems options s) ''RefreshToken'' = Some (RefreshToken options)"
  "sessionStorage (setItems options s) ''keyPassword'' = Some (keyPassword options)"
  by (simp_all add: setItems_def)

lemma logout_fields [simp]:
  "fst (logout d s) = True"
  "status (snd (logout d s)) = UNAUTHORIZED"
  "pendingInit (snd (logout d s)) = pendingInit s"
  "lockStatus (snd (logout d s)) = lockStatus s"
  "authStore_UID (snd (logout d s)) = None"
  "authStore_password (snd (logout d s)) = None"
  "sessionStorage (snd (logout d s)) = sessionStorage s"
  "api_auth (snd (logout d s)) = None"
  "api_listener (snd (logout d s)) = False"
  "settled (snd (logout d s)) = settled s"
  "fresh (snd (logout d s)) = fresh s"
  "detached (snd (logout d s)) = detached s"
  "trace (snd (logout d s)) =
     trace s @ (if has_onUnauthorized d then [Fired onUnauthorized] else [])"
  by (simp_all add: logout_def Let_def)

lemma cachedLock_cong:
  "lockStatus s' = lockStatus s \<Longrightarrow> cachedLock d s' = cachedLock d s"
  by (simp add: cachedLock_def)

lemma cachedLock_simps [simp]:
  "cachedLock d (emit e s) = cachedLock d s"
  "cachedLock d (login_begin options s) = cachedLock d s"
  "cachedLock d (login_configure options s) = cachedLock d s"
  by (simp_all add: cachedLock_def)

lemma login_resolve_fst [simp]:
  "fst (login_resolve d lck s) = (lock_status lck \<noteq> LOCKED_SESSION)"
  by (simp add: login_resolve_def Let_def split: option.splits)

lemma login_resolve_fields [simp]:
  "status (snd (login_resolve d lck s)) =
     (if lock_status lck = LOCKED_SESSION then LOCKED else AUTHORIZED)"
  "pendingInit (snd (login_resolve d lck s)) = pendingInit s"
  "authStore_UID (snd (login_resolve d lck s)) = authStore_UID s"
  "authStore_password (snd (login_resolve d lck s)) = authStore_password s"
  "sessionStorage (snd (login_resolve d lck s)) = sessionStorage s"
  "api_auth (snd (login_resolve d lck s)) = api_auth s"
  "settled (snd (login_resolve d lck s)) = settled s"
  "fresh (snd (login_resolve d lck s)) = fresh s"
  "detached (snd (login_resolve d lck s)) = detached s"
  by (simp_all add: login_resolve_def Let_def split: option.splits)

lemma login_resolve_listener [simp]:
  "api_listener (snd (login_resolve d lck s)) =
     (if lock_status lck = LOCKED_SESSION then api_listener s else True)"
  by (simp add: login_resolve_def Let_def split: option.splits)

lemma login_resolve_lockStatus [simp]:
  "lockStatus (snd (login_resolve d lck s)) =
     (if lock_status lck = LOCKED_SESSION then Some LOCKED_SESSION else lockStatus s)"
  by (simp add: login_resolve_def Let_def split: option.splits)

lemma login_resolve_trace [simp]:
  "trace (snd (login_resolve d lck s)) =
     trace s @
     (if lock_status lck = LOCKED_SESSION
      then (if workerReady d (status s) then [Dispatched stateLock] else [])
      else (case lock_ttl lck of
              Some ttl \<Rightarrow>
                if lock_status lck = REGISTERED \<and> ttl \<noteq> 0
                then [Dispatched (sessionLockSync ttl)] else []
            | None \<Rightarrow> []) @
           (if has_onAuthorized d then [Fired onAuthorized] else []))"
  by (simp add: login_resolve_def Let_def split: option.splits)

subsection \<open>login\<close>

lemmas login_unfold = login_def login_after_write_def login_after_lock_def
  login_return_def login_throw_def

lemma login_fst:
  "fst (login d env options s) =
     (case setItems_error env of
        Some e \<Rightarrow> Inl e
      | None \<Rightarrow>
          (case cachedLock d s of
             Some lck \<Rightarrow> Inr (lock_status lck \<noteq> LOCKED_SESSION)
           | None \<Rightarrow>
               (case checkSessionLock_result env of
                  Inl e \<Rightarrow> Inl e
                | Inr lck \<Rightarrow> Inr (lock_status lck \<noteq> LOCKED_SESSION))))"
  by (simp add: login_unfold Let_def split: option.splits sum.splits)

lemma login_status:
  "status (snd (login d env options s)) =
     (case fst (login d env options s) of
        Inl e \<Rightarrow> status s
      | Inr b \<Rightarrow> if b then AUTHORIZED else LOCKED)"
  by (simp add: login_unfold Let_def split: option.splits sum.splits)

lemma login_keeps [simp]:
  "pendingInit (snd (login d env options s)) = pendingInit s"
  "settled (snd (login d env options s)) = settled s"
  "fresh (snd (login d env options s)) = fresh s"
  "detached (snd (login d env options s)) = detached s"
  by (simp_all add: login_unfold Let_def split: option.splits sum.splits)

lemma login_written:
  assumes "setItems_error env = None"
  shows "sessionStorage (snd (login d env options s)) = sessionStorage (setItems options s)"
    and "api_auth (snd (login d env options s)) =
           Some \<lparr>api_UID = UID options, api_AccessToken = AccessToken options,
                 api_RefreshToken = RefreshToken options\<rparr>"
    and "authStore_UID (snd (login d env options s)) = Some (UID options)"
    and "authStore_password (snd (login d env options s)) = Some (keyPassword options)"
  using assms
  by (simp_all add: login_unfold Let_def setItems_def login_begin_def emit_def
        split: option.splits sum.splits)

lemma login_Inr_written:
  "fst (login d env options s) = Inr b \<Longrightarrow> setItems_error env = None"
  by (simp add: login_fst split: option.splits)

subsection \<open>resumeSession\<close>

lemma resume_catch_fields [simp]:
  "fst (resume_catch d e s) = Inr False"
  "status (snd (resume_catch d e s)) = RESUMING_FAILED"
  "pendingInit (snd (resume_catch d e s)) = pendingInit s"
  "settled (snd (resume_catch d e s)) = settled s"
  "fresh (snd (resume_catch d e s)) = fresh s"
  "detached (snd (resume_catch d e s)) = detached s"
  by (simp_all add: resume_catch_def Let_def)

lemma resumeSession_keeps [simp]:
  "pendingInit (snd (resumeSession d env s)) = pendingInit s"
  "settled (snd (resumeSession d env s)) = settled s"
  "fresh (snd (resumeSession d env s)) = fresh s"
  "detached (snd (resumeSession d env s)) = detached s"
  by (simp_all add: resumeSession_def Let_def case_prod_unfold split: sum.splits option.splits)



lemma resumeSession_true:
  "fst (resumeSession d env s) = Inr b \<Longrightarrow>
     (b \<longleftrightarrow> status (snd (resumeSession d env s)) = AUTHORIZED) \<and>
     (\<not> b \<longrightarrow> status (snd (resumeSession d env s)) \<in> {LOCKED, UNAUTHORIZED, RESUMING_FAILED})"
  by (auto simp add: resumeSession_def Let_def case_prod_unfold login_status
      split: sum.splits option.splits if_splits)

subsection \<open>init\<close>

lemma init_enter_empty:
  "pendingInit s = None \<Longrightarrow>
     init_enter s =
       ((fresh s, True), (emit (Called GetItems) s)\<lparr>fresh := Suc (fresh s), pendingInit := Some (fresh s)\<rparr>)"
  by (simp add: init_enter_def Let_def)

lemma init_enter_taken: "pendingInit s = Some p \<Longrightarrow> init_enter s = ((p, False), s)"
  by (simp add: init_enter_def)

lemma init_attempt_keeps [simp]:
  "pendingInit (snd (init_attempt d env s)) = pendingInit s"
  "settled (snd (init_attempt d env s)) = settled s"
  "fresh (snd (init_attempt d env s)) = fresh s"
  "detached (snd (init_attempt d env s)) = detached s"
  by (simp_all add: init_attempt_def Let_def split: option.splits)

lemma init_attempt_true:
  "fst (init_attempt d env s) = Inr b \<Longrightarrow>
     (b \<longleftrightarrow> status (snd (init_attempt d env s)) = AUTHORIZED) \<and>
     (\<not> b \<longrightarrow> status (snd (init_attempt d env s)) \<in> {LOCKED, UNAUTHORIZED, RESUMING_FAILED})"
  by (auto simp add: init_attempt_def Let_def login_status dest: resumeSession_true
      split: option.splits if_splits)

lemma init_resume_settle:
  "init_resume p (settle p r s) =
     (Some r, case r of Inl e \<Rightarrow> settle p r s | Inr b \<Rightarrow> (settle p r s)\<lparr>pendingInit := None\<rparr>)"
  by (simp add: init_resume_def split: sum.splits)

lemma init_empty:
  assumes "pendingInit s = None"
  shows "init d env s =
     (let a = init_attempt d env
                ((emit (Called GetItems) s)\<lparr>fresh := Suc (fresh s), pendingInit := Some (fresh s)\<rparr>)
      in init_resume (fresh s) (settle (fresh s) (fst a) (snd a)))"
  using assms by (simp add: init_def init_enter_empty case_prod_unfold Let_def)

lemma init_taken: "pendingInit s = Some p \<Longrightarrow> init d env s = (settled s p, s)"
  by (simp add: init_def init_enter_taken)

lemma init_slot_cleared:
  assumes "pendingInit s = None" and "init d env s = (Some (Inr b), s')"
  shows "pendingInit s' = None"
  using assms by (auto simp add: init_empty Let_def init_resume_settle split: sum.splits)

subsection \<open>consumeFork\<close>

lemma setItems_after [simp]:
  "sessionStorage (setItems options (emit e s)) = sessionStorage (setItems options s)"
  "sessionStorage (setItems options (login_begin options' s)) = sessionStorage (setItems options s)"
  by (simp_all add: setItems_def)

lemma fork_catch_fields [simp]:
  "fst (fork_catch d e s) = Inl (fork_rethrow d e)"
  "status (snd (fork_catch d e s)) = UNAUTHORIZED"
  "pendingInit (snd (fork_catch d e s)) = pendingInit s"
  "lockStatus (snd (fork_catch d e s)) = lockStatus s"
  "authStore_UID (snd (fork_catch d e s)) = authStore_UID s"
  "authStore_password (snd (fork_catch d e s)) = authStore_password s"
  "sessionStorage (snd (fork_catch d e s)) = sessionStorage s"
  "api_auth (snd (fork_catch d e s)) = api_auth s"
  "api_listener (snd (fork_catch d e s)) = api_listener s"
  "settled (snd (fork_catch d e s)) = settled s"
  "fresh (snd (fork_catch d e s)) = fresh s"
  "detached (snd (fork_catch d e s)) = detached s"
  "trace (snd (fork_catch d e s)) = trace s"
  by (simp_all add: fork_catch_def Let_def)

lemma fork_rethrow_simps:
  "fork_rethrow d Nullish = RawTypeError"
  "fork_rethrow d (Thrown err) =
     WithPayload
       \<lparr>title = (case err_title err of Some t \<Rightarrow> t | None \<Rightarrow> ''Something went wrong''),
        message = (case err_message err of
                     Some m \<Rightarrow> m
                   | None \<Rightarrow> ''Unable to login to '' @ PASS_APP_NAME d)\<rparr>"
  by (simp_all add: fork_rethrow_def)

lemmas promise_all_unfold = promise_all_def persist_settles_def persist_last_def
  login_after_write_def login_after_lock_def login_return_def login_throw_def

lemma promise_all_fst:
  "persistSession_error env = None \<Longrightarrow>
     fst (promise_all d env result options s) = fst (login d env options s)"
  by (simp add: promise_all_unfold login_fst Let_def split: option.splits sum.splits)

lemma promise_all_fields:
  assumes "persistSession_error env = None"
  shows "status (snd (promise_all d env result options s)) = status (snd (login d env options s))"
    and "sessionStorage (snd (promise_all d env result options s)) =
           sessionStorage (snd (login d env options s))"
    and "api_auth (snd (promise_all d env result options s)) = api_auth (snd (login d env options s))"
    and "api_listener (snd (promise_all d env result options s)) =
           api_listener (snd (login d env options s))"
    and "authStore_UID (snd (promise_all d env result options s)) =
           authStore_UID (snd (login d env options s))"
    and "authStore_password (snd (promise_all d env result options s)) =
           authStore_password (snd (login d env options s))"
  using assms
  by (simp_all add: promise_all_unfold login_def Let_def split: option.splits sum.splits)

lemma promise_all_trace:
  "\<exists>rest. trace (snd (promise_all d env result options s)) =
       trace s @ Called (PersistSession result) # Called (Login options) #
         Called (SetItems options) # rest \<and>
     Called UserAccess \<notin> set rest \<and>
     (\<forall>b. fst (promise_all d env result options s) = Inr b \<longrightarrow>
        Settled (Login options) \<in> set rest \<and> Settled (PersistSession result) \<in> set rest)"
  by (simp add: promise_all_unfold Let_def split: option.splits sum.splits)

lemma never_before_prefix:
  "a \<in> set xs \<Longrightarrow> b \<notin> set xs \<Longrightarrow> never_before a b (xs @ ys)"
  by (simp add: never_before_def takeWhile_append1 [where P = "\<lambda>e. e \<noteq> a"]
      takeWhile_append)
     (metis (mono_tags, lifting) set_takeWhileD)

lemma never_before_absent: "b \<notin> set t \<Longrightarrow> never_before a b t"
  by (auto simp add: never_before_def dest: set_takeWhileD)

lemma fork_begun_fields [simp]:
  "lockStatus (fork_begun data s) = lockStatus s"
  "sessionStorage (fork_begun data s) = sessionStorage s"
  "trace (fork_begun data s) = trace s @ [Called (ConsumeFork data), Settled (ConsumeFork data)]"
  "cachedLock d (fork_begun data s) = cachedLock d s"
  by (simp_all add: fork_begun_def cachedLock_def)

lemma consumeFork_exchanged:
  assumes "consumeFork_result env = Inr result"
  shows "consumeFork d env data s =
     (case promise_all d env result (fork_options result data) (fork_begun data s) of
        (Inl e, s4) \<Rightarrow> fork_catch d e s4
      | (Inr b, s4) \<Rightarrow>
          (case userAccess_error env of
             None \<Rightarrow> (Inr (welcome_payload d), emit (Settled UserAccess) (emit (Called UserAccess) s4))
           | Some e \<Rightarrow>
               if err_name e \<noteq> Some ''LockedSession''
               then fork_catch d (Thrown e) (emit (Settled UserAccess) (emit (Called UserAccess) s4))
               else (Inr (welcome_payload d), emit (Settled UserAccess) (emit (Called UserAccess) s4))))"
  using assms by (simp add: consumeFork_def Let_def split: prod.splits sum.splits)

lemma consumeFork_trace:
  assumes "consumeFork_result env = Inr result"
  shows "trace (snd (consumeFork d env data s)) =
     trace (snd (promise_all d env result (fork_options result data) (fork_begun data s))) @
     (case fst (promise_all d env result (fork_options result data) (fork_begun data s)) of
        Inl e \<Rightarrow> []
      | Inr b \<Rightarrow> [Called UserAccess, Settled UserAccess])"
  by (simp add: consumeFork_exchanged [OF assms] case_prod_unfold split: sum.splits option.splits)

lemma login_fst_begun:
  "fst (login d env options (fork_begun data s)) = fst (login d env options s)"
  by (simp add: login_fst split: option.splits)

lemma login_listener:
  "fst (login d env options s) = Inr b \<Longrightarrow> api_listener (snd (login d env options s)) = b"
  by (auto simp add: login_unfold Let_def split: option.splits sum.splits)

lemma consumeFork_resolved:
  assumes "consumeFork_result env = Inr result"
      and "persistSession_error env = None"
      and "fst (login d env (fork_options result data) (fork_begun data s)) = Inr b"
  shows "consumeFork d env data s =
     (let s5 = emit (Settled UserAccess) (emit (Called UserAccess)
                 (snd (promise_all d env result (fork_options result data) (fork_begun data s))))
      in case userAccess_error env of
           None \<Rightarrow> (Inr (welcome_payload d), s5)
         | Some e \<Rightarrow>
             if err_name e \<noteq> Some ''LockedSession''
             then fork_catch d (Thrown e) s5
             else (Inr (welcome_payload d), s5))"
  using assms(3)
  by (simp add: consumeFork_exchanged [OF assms(1)] promise_all_fst [OF assms(2)]
        case_prod_unfold Let_def)












lemma fork_begun_detached [simp]: "detached (fork_begun data s) = detached s"
  by (simp add: fork_begun_def)

lemma cachedLock_detached [simp]: "cachedLock d (s\<lparr>detached := ts\<rparr>) = cachedLock d s"
  by (simp add: cachedLock_def)

lemma cachedLock_fork_catch [simp]: "cachedLock d (snd (fork_catch d' e s)) = cachedLock d s"
  by (simp add: cachedLock_def)










subsection \<open>Every other method is made of effects\<close>

lemma effects_then:
  "effect\<^sup>*\<^sup>* s t \<Longrightarrow> e \<noteq> Called GetItems \<Longrightarrow> effect\<^sup>*\<^sup>* s (emit e t)"
  "effect\<^sup>*\<^sup>* s t \<Longrightarrow> effect\<^sup>*\<^sup>* s (setStatus v t)"
  "effect\<^sup>*\<^sup>* s t \<Longrightarrow> effect\<^sup>*\<^sup>* s (api_configure a t)"
  "effect\<^sup>*\<^sup>* s t \<Longrightarrow> effect\<^sup>*\<^sup>* s (api_unsubscribe t)"
  "effect\<^sup>*\<^sup>* s t \<Longrightarrow> effect\<^sup>*\<^sup>* s (api_subscribe t)"
  "effect\<^sup>*\<^sup>* s t \<Longrightarrow> effect\<^sup>*\<^sup>* s (setItems options t)"
  "effect\<^sup>*\<^sup>* s t \<Longrightarrow> effect\<^sup>*\<^sup>* s (t\<lparr>lockStatus := ls\<rparr>)"
  "effect\<^sup>*\<^sup>* s t \<Longrightarrow> effect\<^sup>*\<^sup>* s (t\<lparr>authStore_UID := u\<rparr>)"
  "effect\<^sup>*\<^sup>* s t \<Longrightarrow> effect\<^sup>*\<^sup>* s (t\<lparr>authStore_password := k\<rparr>)"
  "effect\<^sup>*\<^sup>* s t \<Longrightarrow> effect\<^sup>*\<^sup>* s (t\<lparr>detached := ts\<rparr>)"
  by (auto intro: rtranclp.rtrancl_into_rtrancl effect.intros)

lemma effects_lock: "effect\<^sup>*\<^sup>* s t \<Longrightarrow> effect\<^sup>*\<^sup>* s (lock d t)"
  by (auto simp add: lock_def Let_def intro!: effects_then)

lemma effects_unlock: "effect\<^sup>*\<^sup>* s t \<Longrightarrow> effect\<^sup>*\<^sup>* s (unlock t)"
  by (auto simp add: unlock_def intro!: effects_then)

lemma effects_logout: "effect\<^sup>*\<^sup>* s t \<Longrightarrow> effect\<^sup>*\<^sup>* s (snd (logout d t))"
  by (auto simp add: logout_def Let_def intro!: effects_then)

lemma effects_listener: "effect\<^sup>*\<^sup>* s t \<Longrightarrow> effect\<^sup>*\<^sup>* s (listener d ev t)"
  by (auto simp add: listener_def Let_def intro!: effects_then effects_lock split: api_event.splits)

lemma effects_login_resolve:
  "effect\<^sup>*\<^sup>* s t \<Longrightarrow> effect\<^sup>*\<^sup>* s (snd (login_resolve d lck t))"
  by (auto simp add: login_resolve_def Let_def intro!: effects_then effects_lock
      split: option.splits)

lemma effects_login_begin: "effect\<^sup>*\<^sup>* s t \<Longrightarrow> effect\<^sup>*\<^sup>* s (login_begin options t)"
  by (auto simp add: login_begin_def intro!: effects_then)

lemma effects_login_configure: "effect\<^sup>*\<^sup>* s t \<Longrightarrow> effect\<^sup>*\<^sup>* s (login_configure options t)"
  by (auto simp add: login_configure_def Let_def intro!: effects_then)

lemma effects_login_after_lock:
  "effect\<^sup>*\<^sup>* s t \<Longrightarrow> effect\<^sup>*\<^sup>* s (snd (login_after_lock d env options t))"
  by (auto simp add: login_after_lock_def login_return_def login_throw_def
      intro!: effects_then effects_login_resolve split: sum.splits)

lemma effects_login_after_write:
  "effect\<^sup>*\<^sup>* s t \<Longrightarrow> effect\<^sup>*\<^sup>* s (snd (login_after_write d env options t))"
  by (auto simp add: login_after_write_def login_return_def login_throw_def Let_def
      intro!: effects_then effects_login_resolve effects_login_after_lock effects_login_configure
      split: option.splits)

lemma effects_login: "effect\<^sup>*\<^sup>* s t \<Longrightarrow> effect\<^sup>*\<^sup>* s (snd (login d env options t))"
  by (auto simp add: login_def intro!: effects_login_after_write effects_login_begin)

lemma effects_resumeSession:
  "effect\<^sup>*\<^sup>* s t \<Longrightarrow> effect\<^sup>*\<^sup>* s (snd (resumeSession d env t))"
  by (auto simp add: resumeSession_def resume_catch_def Let_def case_prod_unfold
      intro!: effects_then effects_login split: sum.splits option.splits)

lemma effects_init_attempt:
  "effect\<^sup>*\<^sup>* s t \<Longrightarrow> effect\<^sup>*\<^sup>* s (snd (init_attempt d env t))"
  by (auto simp add: init_attempt_def Let_def
      intro!: effects_then effects_login effects_resumeSession split: option.splits)

lemma effects_promise_all:
  "effect\<^sup>*\<^sup>* s t \<Longrightarrow> effect\<^sup>*\<^sup>* s (snd (promise_all d env result options t))"
  by (auto simp add: promise_all_def persist_settles_def persist_last_def login_return_def
        login_throw_def Let_def case_prod_unfold
      intro!: effects_then effects_login_begin effects_login_configure effects_login_resolve
        effects_login_after_lock effects_login_after_write
      split: option.splits sum.splits)

lemma effects_fork_catch: "effect\<^sup>*\<^sup>* s t \<Longrightarrow> effect\<^sup>*\<^sup>* s (snd (fork_catch d e t))"
  by (auto simp add: fork_catch_def Let_def intro!: effects_then split: thrown.splits)

lemma effects_fork_begun: "effect\<^sup>*\<^sup>* s t \<Longrightarrow> effect\<^sup>*\<^sup>* s (fork_begun data t)"
  by (auto simp add: fork_begun_def intro!: effects_then)

lemma effects_consumeFork:
  "effect\<^sup>*\<^sup>* s t \<Longrightarrow> effect\<^sup>*\<^sup>* s (snd (consumeFork d env data t))"
  by (auto simp add: consumeFork_def Let_def case_prod_unfold
      intro!: effects_then effects_promise_all effects_fork_catch effects_fork_begun
      split: option.splits sum.splits fork_failure.splits)

lemma effects_resume_login:
  "effect\<^sup>*\<^sup>* s t \<Longrightarrow> effect\<^sup>*\<^sup>* s (resume_login d env task t)"
  by (auto simp add: resume_login_def intro!: effects_login_after_write effects_login_after_lock
      split: suspended.splits)

lemma effects_fold_resume_login:
  "effect\<^sup>*\<^sup>* s t \<Longrightarrow> effect\<^sup>*\<^sup>* s (fold (resume_login d env) tasks t)"
  by (induction tasks arbitrary: t) (auto intro: effects_resume_login)

lemma effects_run_detached: "effect\<^sup>*\<^sup>* s t \<Longrightarrow> effect\<^sup>*\<^sup>* s (run_detached d env t)"
  by (auto simp add: run_detached_def intro!: effects_fold_resume_login effects_then)


subsection \<open>Interleaved calls of init\<close>

lemma reads_simps [simp]:
  "reads (emit e s) = (if e = Called GetItems then Suc (reads s) else reads s)"
  "reads (setStatus v s) = reads s"
  "reads (api_configure a s) = reads s"
  "reads (api_unsubscribe s) = reads s"
  "reads (api_subscribe s) = reads s"
  "reads (setItems options s) = reads s"
  "reads (settle p r s) = reads s"
  "reads (s\<lparr>lockStatus := ls\<rparr>) = reads s"
  "reads (s\<lparr>authStore_UID := u\<rparr>) = reads s"
  "reads (s\<lparr>authStore_password := k\<rparr>) = reads s"
  "reads (s\<lparr>pendingInit := q\<rparr>) = reads s"
  "reads (s\<lparr>fresh := n\<rparr>) = reads s"
  "reads (s\<lparr>detached := ts\<rparr>) = reads s"
  by (simp_all add: reads_def)

lemma effect_keeps:
  assumes "effect s s'"
  shows "pendingInit s' = pendingInit s \<and> settled s' = settled s \<and> fresh s' = fresh s \<and>
         reads s' = reads s"
  using assms by cases simp_all

lemma effects_keep:
  "effect\<^sup>*\<^sup>* s s' \<Longrightarrow>
     pendingInit s' = pendingInit s \<and> settled s' = settled s \<and> fresh s' = fresh s \<and>
     reads s' = reads s"
  by (induction rule: rtranclp_induct) (auto dest: effect_keeps)

text \<open>
  A call of \<^verbatim>\<open>init\<close> reads the slot and the next promise only: made after any stretches
  of the other methods, or in the middle of an inner function, it returns what it would
  have returned before them.
\<close>

lemma init_enter_effects: "effect\<^sup>*\<^sup>* s s' \<Longrightarrow> fst (init_enter s') = fst (init_enter s)"
  by (simp add: init_enter_def Let_def effects_keep split: option.splits)

lemma init_attempt_reads [simp]: "reads (snd (init_attempt d env s)) = reads s"
proof -
  have "effect\<^sup>*\<^sup>* s (snd (init_attempt d env s))" by (rule effects_init_attempt) simp
  then show ?thesis by (simp add: effects_keep)
qed

lemma init_resume_fst: "fst (init_resume p s) = settled s p"
  by (simp add: init_resume_def split: option.splits sum.splits)

lemma init_outcome_eq: "init_outcome started p s = settled s p"
  by (simp add: init_outcome_def init_resume_fst)

lemma init_resume_keeps:
  "init_resume p s = (Some r, s') \<Longrightarrow>
     settled s p = Some r \<and> settled s' = settled s \<and> fresh s' = fresh s \<and> reads s' = reads s \<and>
     ((\<exists>e. r = Inl e) \<and> pendingInit s' = pendingInit s \<or> pendingInit s' = None)"
  by (auto simp add: init_resume_def split: option.splits sum.splits)

lemma init_call_empty:
  "pendingInit (svc w) = None \<Longrightarrow>
     init_call w =
       ((fresh (svc w), True),
        w\<lparr>svc := (emit (Called GetItems) (svc w))
                 \<lparr>fresh := Suc (fresh (svc w)), pendingInit := Some (fresh (svc w))\<rparr>,
          waiting := insert (fresh (svc w)) (waiting w),
          running := insert (fresh (svc w)) (running w)\<rparr>)"
  by (simp add: init_call_def init_enter_empty)

lemma init_call_taken: "pendingInit (svc w) = Some p \<Longrightarrow> init_call w = ((p, False), w)"
  by (simp add: init_call_def init_enter_taken)

lemma init_call_slot:
  assumes "init_call w = ((p, started), w')"
  shows "pendingInit (svc w') = Some p"
    and "started = (pendingInit (svc w) = None)"
    and "reads (svc w') = reads (svc w) + (if started then 1 else 0)"
    and "settled (svc w') = settled (svc w)"
    and "executed w' = executed w"
proof -
  show "pendingInit (svc w') = Some p" "started = (pendingInit (svc w) = None)"
    "reads (svc w') = reads (svc w) + (if started then 1 else 0)"
    "settled (svc w') = settled (svc w)" "executed w' = executed w"
    using assms
    by (cases "pendingInit (svc w)"; auto simp add: init_call_empty init_call_taken)+
qed

lemma run_attempt_fields [simp]:
  "pendingInit (svc (run_attempt d env p w)) = pendingInit (svc w)"
  "fresh (svc (run_attempt d env p w)) = fresh (svc w)"
  "settled (svc (run_attempt d env p w)) = (settled (svc w))(p \<mapsto> fst (init_attempt d env (svc w)))"
  "reads (svc (run_attempt d env p w)) = reads (svc w)"
  "status (svc (run_attempt d env p w)) = status (snd (init_attempt d env (svc w)))"
  "waiting (run_attempt d env p w) = waiting w"
  "running (run_attempt d env p w) = running w - {p}"
  "executed (run_attempt d env p w) = executed w @ [(p, env, svc w)]"
  by (simp_all add: run_attempt_def case_prod_unfold)

lemma attempts_of_simps [simp]:
  "attempts_of (w\<lparr>svc := s\<rparr>) q = attempts_of w q"
  "attempts_of (w\<lparr>waiting := W\<rparr>) q = attempts_of w q"
  "attempts_of (w\<lparr>running := R\<rparr>) q = attempts_of w q"
  "attempts_of (run_attempt d env p w) q =
     attempts_of w q @ (if q = p then [(env, svc w)] else [])"
  by (simp_all add: attempts_of_def)

lemma world_invD:
  assumes "world_inv d w"
  shows "p \<in> waiting w \<Longrightarrow> pendingInit (svc w) = Some p"
    and "p \<in> waiting w \<Longrightarrow> p < fresh (svc w)"
    and "running w \<subseteq> waiting w"
    and "settled (svc w) p = None \<Longrightarrow> attempts_of w p = []"
    and "settled (svc w) p = Some r \<Longrightarrow> p \<notin> running w"
    and "settled (svc w) p = Some r \<Longrightarrow>
           \<exists>env s. attempts_of w p = [(env, s)] \<and> r = fst (init_attempt d env s)"
    and "pendingInit (svc w) = Some p \<Longrightarrow>
           p \<in> waiting w \<or> (\<exists>e. settled (svc w) p = Some (Inl e))"
    and "fresh (svc w) \<le> p \<Longrightarrow> settled (svc w) p = None"
  using assms unfolding world_inv_def by blast+

lemma world_inv_waiting:
  assumes "world_inv d w" and "p \<in> waiting w"
  shows "waiting w = {p}" and "running w \<subseteq> {p}"
proof -
  have "waiting w \<subseteq> {p}"
  proof
    fix q assume "q \<in> waiting w"
    from world_invD(1) [OF assms(1) this] world_invD(1) [OF assms(1) assms(2)]
    show "q \<in> {p}" by simp
  qed
  with assms(2) show "waiting w = {p}" by blast
  with world_invD(3) [OF assms(1)] show "running w \<subseteq> {p}" by simp
qed

lemma world_inv_empty:
  assumes "world_inv d w" and "pendingInit (svc w) = None"
  shows "waiting w = {}" and "running w = {}"
proof -
  have "waiting w \<subseteq> {}"
  proof
    fix q assume "q \<in> waiting w"
    from world_invD(1) [OF assms(1) this] assms(2) show "q \<in> {}" by simp
  qed
  then show "waiting w = {}" by simp
  with world_invD(3) [OF assms(1)] show "running w = {}" by simp
qed

lemma world_inv_running:
  assumes "world_inv d w" and "p \<in> running w"
  shows "settled (svc w) p = None" and "p \<in> waiting w" and "p < fresh (svc w)"
    and "attempts_of w p = []"
proof -
  from world_invD(5) [OF assms(1), of p] assms(2) show n: "settled (svc w) p = None"
    by (cases "settled (svc w) p") auto
  from world_invD(3) [OF assms(1)] assms(2) show m: "p \<in> waiting w" by auto
  from world_invD(2) [OF assms(1) m] show "p < fresh (svc w)" .
  from world_invD(4) [OF assms(1) n] show "attempts_of w p = []" .
qed

lemma step_inv:
  assumes "step d w w'" and "world_inv d w"
  shows "world_inv d w'"
  using assms(1)
proof cases
  case (step_call h)
  show ?thesis
  proof (cases "pendingInit (svc w)")
    case None
    from world_inv_empty [OF assms(2) None] have e: "waiting w = {}" "running w = {}" .
    have f: "settled (svc w) (fresh (svc w)) = None"
      by (rule world_invD(8) [OF assms(2)]) simp
    from step_call None have w': "w' = w\<lparr>svc := (emit (Called GetItems) (svc w))
                 \<lparr>fresh := Suc (fresh (svc w)), pendingInit := Some (fresh (svc w))\<rparr>,
          waiting := insert (fresh (svc w)) (waiting w),
          running := insert (fresh (svc w)) (running w)\<rparr>"
      by (simp add: init_call_empty)
    show ?thesis
      unfolding world_inv_def
    proof (intro conjI)
      show "\<forall>p\<in>waiting w'. pendingInit (svc w') = Some p \<and> p < fresh (svc w')"
        by (simp add: w' e)
      show "running w' \<subseteq> waiting w'" by (simp add: w' e)
      show "\<forall>p. settled (svc w') p = None \<longrightarrow> attempts_of w' p = []"
        using world_invD(4) [OF assms(2)] by (simp add: w')
      show "\<forall>p r. settled (svc w') p = Some r \<longrightarrow>
         p \<notin> running w' \<and>
         (\<exists>env s. attempts_of w' p = [(env, s)] \<and> r = fst (init_attempt d env s))"
        using world_invD(6) [OF assms(2)] f by (auto simp add: w' e)
      show "\<forall>p. pendingInit (svc w') = Some p \<longrightarrow>
         p \<in> waiting w' \<or> (\<exists>e. settled (svc w') p = Some (Inl e))"
        by (simp add: w')
      show "\<forall>p. fresh (svc w') \<le> p \<longrightarrow> settled (svc w') p = None"
        using world_invD(8) [OF assms(2)] by (simp add: w')
    qed
  next
    case (Some q)
    with step_call assms(2) show ?thesis by (simp add: init_call_taken)
  qed
next
  case (step_effect s')
  from effect_keeps [OF step_effect(2)]
  have k: "pendingInit s' = pendingInit (svc w)" "settled s' = settled (svc w)"
    "fresh s' = fresh (svc w)" by simp_all
  from assms(2) show ?thesis
    unfolding world_inv_def step_effect(1) by (simp add: k)
next
  case (step_attempt p env)
  from world_inv_running [OF assms(2) step_attempt(2)]
  have n: "settled (svc w) p = None" and m: "p \<in> waiting w" and l: "p < fresh (svc w)"
    and a: "attempts_of w p = []" .
  show ?thesis
    unfolding world_inv_def
  proof (intro conjI)
    show "\<forall>p\<in>waiting w'. pendingInit (svc w') = Some p \<and> p < fresh (svc w')"
      using world_invD(1,2) [OF assms(2)] by (simp add: step_attempt(1))
    show "running w' \<subseteq> waiting w'"
      using world_invD(3) [OF assms(2)] by (auto simp add: step_attempt(1))
    show "\<forall>q. settled (svc w') q = None \<longrightarrow> attempts_of w' q = []"
      using world_invD(4) [OF assms(2)] by (auto simp add: step_attempt(1) split: if_splits)
    show "\<forall>q r. settled (svc w') q = Some r \<longrightarrow>
         q \<notin> running w' \<and>
         (\<exists>env s. attempts_of w' q = [(env, s)] \<and> r = fst (init_attempt d env s))"
    proof (intro allI impI)
      fix q r assume s: "settled (svc w') q = Some r"
      show "q \<notin> running w' \<and>
         (\<exists>env s. attempts_of w' q = [(env, s)] \<and> r = fst (init_attempt d env s))"
      proof (cases "q = p")
        case True
        with s a show ?thesis by (auto simp add: step_attempt(1))
      next
        case False
        with s have "settled (svc w) q = Some r" by (simp add: step_attempt(1))
        from world_invD(5) [OF assms(2) this] world_invD(6) [OF assms(2) this] False
        show ?thesis by (simp add: step_attempt(1))
      qed
    qed
    show "\<forall>q. pendingInit (svc w') = Some q \<longrightarrow>
         q \<in> waiting w' \<or> (\<exists>e. settled (svc w') q = Some (Inl e))"
    proof (intro allI impI)
      fix q assume "pendingInit (svc w') = Some q"
      then have "pendingInit (svc w) = Some q" by (simp add: step_attempt(1))
      from world_invD(7) [OF assms(2) this] n
      show "q \<in> waiting w' \<or> (\<exists>e. settled (svc w') q = Some (Inl e))"
        by (auto simp add: step_attempt(1))
    qed
    show "\<forall>q. fresh (svc w') \<le> q \<longrightarrow> settled (svc w') q = None"
      using world_invD(8) [OF assms(2)] l by (auto simp add: step_attempt(1))
  qed
next
  case (step_resume p r s')
  from init_resume_keeps [OF step_resume(3)]
  have k: "settled (svc w) p = Some r" "settled s' = settled (svc w)" "fresh s' = fresh (svc w)"
    and c: "(\<exists>e. r = Inl e) \<and> pendingInit s' = pendingInit (svc w) \<or> pendingInit s' = None"
    by simp_all
  from world_inv_waiting [OF assms(2) step_resume(2)]
  have v: "waiting w = {p}" "running w \<subseteq> {p}" .
  from world_invD(5) [OF assms(2) k(1)] v(2) have u: "running w = {}" by auto
  from world_invD(1) [OF assms(2) step_resume(2)] have sl: "pendingInit (svc w) = Some p" .
  show ?thesis
    unfolding world_inv_def
  proof (intro conjI)
    show "\<forall>p\<in>waiting w'. pendingInit (svc w') = Some p \<and> p < fresh (svc w')"
      by (simp add: step_resume(1) v)
    show "running w' \<subseteq> waiting w'" by (simp add: step_resume(1) u)
    show "\<forall>q. settled (svc w') q = None \<longrightarrow> attempts_of w' q = []"
      using world_invD(4) [OF assms(2)] by (simp add: step_resume(1) k)
    show "\<forall>q r. settled (svc w') q = Some r \<longrightarrow>
         q \<notin> running w' \<and>
         (\<exists>env s. attempts_of w' q = [(env, s)] \<and> r = fst (init_attempt d env s))"
      using world_invD(6) [OF assms(2)] by (simp add: step_resume(1) k u)
    show "\<forall>q. pendingInit (svc w') = Some q \<longrightarrow>
         q \<in> waiting w' \<or> (\<exists>e. settled (svc w') q = Some (Inl e))"
      using c sl k(1) by (auto simp add: step_resume(1) k(2))
    show "\<forall>q. fresh (svc w') \<le> q \<longrightarrow> settled (svc w') q = None"
      using world_invD(8) [OF assms(2)] by (simp add: step_resume(1) k)
  qed
qed

lemma reachable_inv: "reachable d w \<Longrightarrow> world_inv d w"
proof (induction rule: reachable.induct)
  case (reach_init w)
  then show ?case by (simp add: world_inv_def attempts_of_def)
next
  case (reach_step w w')
  from reach_step.hyps(2) reach_step.IH show ?case by (rule step_inv)
qed

lemma steps_inv: "(step d)\<^sup>*\<^sup>* w w' \<Longrightarrow> world_inv d w \<Longrightarrow> world_inv d w'"
  by (induction rule: rtranclp_induct) (auto intro: step_inv)

lemma steps_reachable: "(step d)\<^sup>*\<^sup>* w w' \<Longrightarrow> reachable d w \<Longrightarrow> reachable d w'"
  by (induction rule: rtranclp_induct) (auto intro: reach_step)

text \<open>A settled promise stays as it is.\<close>

lemma step_settled:
  assumes "step d w w'" and "world_inv d w" and "settled (svc w) p = Some r"
  shows "settled (svc w') p = Some r"
  using assms(1)
proof cases
  case (step_call h)
  then show ?thesis using assms(3) by (cases h) (simp add: init_call_slot(4))
next
  case (step_effect s')
  then show ?thesis using assms(3) by (auto dest: effect_keeps)
next
  case (step_attempt q env)
  from world_invD(5) [OF assms(2,3)] step_attempt(2) have "q \<noteq> p" by auto
  with assms(3) show ?thesis by (simp add: step_attempt(1))
next
  case (step_resume q r' s')
  then show ?thesis using assms(3) by (auto dest: init_resume_keeps)
qed

lemma steps_settled:
  "(step d)\<^sup>*\<^sup>* w w' \<Longrightarrow> world_inv d w \<Longrightarrow> settled (svc w) p = Some r \<Longrightarrow>
     settled (svc w') p = Some r"
proof (induction rule: rtranclp_induct)
  case base
  then show ?case by simp
next
  case (step w' w'')
  from steps_inv [OF step.hyps(1) step.prems(1)] have "world_inv d w'" .
  from step_settled [OF step.hyps(2) this] step.IH step.prems show ?case by simp
qed

text \<open>
  A call suspended at line 110 stays suspended for as long as its promise has not
  settled, and while it is suspended no storage read is issued.
\<close>

lemma step_waiting:
  assumes "step d w w'" and "world_inv d w" and "p \<in> waiting w"
      and "p \<in> waiting w' \<or> settled (svc w') p = None"
  shows "p \<in> waiting w' \<and> reads (svc w') = reads (svc w)"
  using assms(1)
proof cases
  case (step_call h)
  from world_invD(1) [OF assms(2,3)] have "pendingInit (svc w) = Some p" .
  with step_call assms(3) show ?thesis by (simp add: init_call_taken)
next
  case (step_effect s')
  then show ?thesis using assms(3) by (auto dest: effect_keeps)
next
  case (step_attempt q env)
  then show ?thesis using assms(3) by simp
next
  case (step_resume q r s')
  from world_inv_waiting(1) [OF assms(2,3)] step_resume(2) have q: "q = p" by simp
  from init_resume_keeps [OF step_resume(3)] q
  have "settled (svc w') p = Some r" by (simp add: step_resume(1))
  moreover have "p \<notin> waiting w'" by (simp add: step_resume(1) q)
  ultimately show ?thesis using assms(4) by simp
qed

lemma steps_waiting:
  assumes "(step d)\<^sup>*\<^sup>* w1 w2" and "world_inv d w1" and "p \<in> waiting w1"
      and "p \<in> waiting w2 \<or> settled (svc w2) p = None"
  shows "p \<in> waiting w2 \<and> reads (svc w2) = reads (svc w1) \<and> world_inv d w2"
  using assms
proof (induction rule: rtranclp_induct)
  case base
  then show ?case by simp
next
  case (step w' w'')
  from steps_inv [OF step.hyps(1) step.prems(1)] have i: "world_inv d w'" .
  have "p \<in> waiting w' \<or> settled (svc w') p = None"
  proof (cases "settled (svc w') p")
    case None
    then show ?thesis by simp
  next
    case (Some r)
    from step_settled [OF step.hyps(2) i Some] have s: "settled (svc w'') p = Some r" .
    with step.prems(3) have m: "p \<in> waiting w''" by simp
    from world_invD(2) [OF i] world_invD(8) [OF i, of p] Some
    have l: "p < fresh (svc w')" by (cases "p < fresh (svc w')") auto
    from step.hyps(2) m l show ?thesis
    proof cases
      case (step_call h)
      show ?thesis
      proof (cases "pendingInit (svc w')")
        case None
        with step_call m l show ?thesis by (auto simp add: init_call_empty)
      next
        case (Some q)
        with step_call m show ?thesis by (simp add: init_call_taken)
      qed
    next
      case (step_effect s')
      with m show ?thesis by simp
    next
      case (step_attempt q env)
      with m show ?thesis by simp
    next
      case (step_resume q r s')
      with m show ?thesis by simp
    qed
  qed
  with step.IH step.prems have ih: "p \<in> waiting w'" "reads (svc w') = reads (svc w1)"
    by simp_all
  from step_waiting [OF step.hyps(2) i ih(1) step.prems(3)] ih(2) step_inv [OF step.hyps(2) i]
  show ?case by simp
qed

text \<open>A call of \<^verbatim>\<open>init\<close> run to its end by itself is one run of the world.\<close>

lemma init_is_a_run:
  assumes "pendingInit s = None"
  shows "(step d)\<^sup>*\<^sup>* \<lparr>svc = s, waiting = {}, running = {}, executed = ex\<rparr>
           \<lparr>svc = snd (init d env s), waiting = {}, running = {},
            executed = ex @ [(fresh s, env,
              (emit (Called GetItems) s)\<lparr>fresh := Suc (fresh s), pendingInit := Some (fresh s)\<rparr>)]\<rparr>"
proof -
  let ?p = "fresh s"
  let ?w = "\<lparr>svc = s, waiting = {}, running = {}, executed = ex\<rparr>"
  define s1 where "s1 = (emit (Called GetItems) s)\<lparr>fresh := Suc ?p, pendingInit := Some ?p\<rparr>"
  define w1 where "w1 = \<lparr>svc = s1, waiting = {?p}, running = {?p}, executed = ex\<rparr>"
  define w2 where "w2 = run_attempt d env ?p w1"
  have i: "init d env s = init_resume ?p (svc w2)"
    using assms
    by (simp add: init_empty Let_def s1_def w1_def w2_def run_attempt_def case_prod_unfold)
  have "init_call ?w = ((?p, True), w1)"
    using assms by (simp add: init_call_empty s1_def w1_def)
  then have a: "step d ?w w1" by (rule step_call)
  have "?p \<in> running w1" by (simp add: w1_def)
  then have b: "step d w1 w2" unfolding w2_def by (rule step_attempt)
  have "init_resume ?p (svc w2) = (Some (fst (init_attempt d env s1)), snd (init_resume ?p (svc w2)))"
    by (simp add: w2_def w1_def run_attempt_def case_prod_unfold init_resume_settle)
  then have "init_resume ?p (svc w2) = (Some (fst (init_attempt d env s1)), snd (init d env s))"
    by (simp add: i)
  moreover have "?p \<in> waiting w2" by (simp add: w2_def w1_def)
  ultimately have "step d w2 (w2\<lparr>svc := snd (init d env s), waiting := waiting w2 - {?p}\<rparr>)"
    by (rule step_resume [rotated])
  moreover have "w2\<lparr>svc := snd (init d env s), waiting := waiting w2 - {?p}\<rparr> =
      \<lparr>svc = snd (init d env s), waiting = {}, running = {},
       executed = ex @ [(?p, env, s1)]\<rparr>"
    by (simp add: w2_def w1_def run_attempt_def case_prod_unfold)
  ultimately have c: "step d w2 \<lparr>svc = snd (init d env s), waiting = {}, running = {},
       executed = ex @ [(?p, env, s1)]\<rparr>" by simp
  from a have "(step d)\<^sup>*\<^sup>* ?w w1" by (rule r_into_rtranclp)
  from this b have "(step d)\<^sup>*\<^sup>* ?w w2" by (rule rtranclp.rtrancl_into_rtrancl)
  from this c show ?thesis unfolding s1_def by (rule rtranclp.rtrancl_into_rtrancl)
qed

text \<open>A stretch of any other method is a run of the world, too.\<close>

lemma effects_steps: "effect\<^sup>*\<^sup>* s s' \<Longrightarrow> svc w = s \<Longrightarrow> (step d)\<^sup>*\<^sup>* w (w\<lparr>svc := s'\<rparr>)"
proof (induction rule: rtranclp_induct)
  case base
  then have "w\<lparr>svc := s\<rparr> = w" by (cases w) simp
  then show ?case by simp
next
  case (step t t')
  from step.hyps(2) have "effect (svc (w\<lparr>svc := t\<rparr>)) t'" by simp
  then have "step d (w\<lparr>svc := t\<rparr>) (w\<lparr>svc := t\<rparr>\<lparr>svc := t'\<rparr>)" by (rule step_effect)
  with step.IH [OF step.prems] show ?case by simp
qed

section \<open>The claims\<close>

text \<open>
  C1. Take a world that arises from a service as \<^verbatim>\<open>createAuthService\<close> makes it, a call
  of \<^verbatim>\<open>init\<close> that waits for promise \<open>p\<close>, any steps after it (calls of \<^verbatim>\<open>init\<close>,
  stretches of the other methods, inner functions running on, suspended calls going on),
  and a second call of \<^verbatim>\<open>init\<close> issued while the first is still pending. The second
  call waits for the same promise and starts nothing: it issues no storage read and
  neither starts nor runs an inner function, and for as long as the first call is pending
  no storage read is issued and the only inner function that can be in flight is the one
  behind \<open>p\<close>. That inner function, \<open>init_attempt\<close>, is the settled storage read followed
  by \<^verbatim>\<open>login\<close> or by \<^verbatim>\<open>resumeSession\<close>; at no time has it run more than once. As soon as
  either call has resolved, both have, to the same result: the result of the one run of
  the inner function, which is \<open>true\<close> exactly when that run left the worker \<open>AUTHORIZED\<close>.
\<close>

theorem init_single_flight:
  assumes "reachable d w"
      and "init_call w = ((p, started), w1)"
      and "(step d)\<^sup>*\<^sup>* w1 w2"
      and "still_pending started p w2"
      and "init_call w2 = ((q, started'), w3)"
  shows "q = p \<and> \<not> started' \<and>
         reads (svc w1) = reads (svc w) + (if started then 1 else 0) \<and>
         reads (svc w3) = reads (svc w1) \<and>
         running w3 = running w2 \<and> executed w3 = executed w2 \<and>
         (\<forall>w4. (step d)\<^sup>*\<^sup>* w3 w4 \<longrightarrow> still_pending started p w4 \<longrightarrow>
            reads (svc w4) = reads (svc w1) \<and> running w4 \<subseteq> {p}) \<and>
         (\<forall>w4. (step d)\<^sup>*\<^sup>* w3 w4 \<longrightarrow> length (attempts_of w4 p) \<le> 1) \<and>
         (\<forall>w4 r. (step d)\<^sup>*\<^sup>* w3 w4 \<longrightarrow>
            init_outcome started p (svc w4) = Some r \<or> init_outcome started' q (svc w4) = Some r \<longrightarrow>
            init_outcome started p (svc w4) = Some r \<and>
            init_outcome started' q (svc w4) = Some r \<and>
            (\<exists>env s. attempts_of w4 p = [(env, s)] \<and> r = fst (init_attempt d env s) \<and>
               (\<forall>b. r = Inr b \<longrightarrow> (b \<longleftrightarrow> status (snd (init_attempt d env s)) = AUTHORIZED))))"
proof -
  from assms(1) have i: "world_inv d w" by (rule reachable_inv)
  from assms(2) have "step d w w1" by (rule step_call)
  from this i have i1: "world_inv d w1" by (rule step_inv)
  from init_call_slot [OF assms(2)]
  have s1: "pendingInit (svc w1) = Some p"
    and r1: "reads (svc w1) = reads (svc w) + (if started then 1 else 0)"
    and st: "started = (pendingInit (svc w) = None)" by simp_all
  have m1: "p \<in> waiting w1"
  proof (cases started)
    case True
    with st assms(2) show ?thesis by (auto simp add: init_call_empty)
  next
    case False
    with assms(4) have n: "settled (svc w2) p = None" by (simp add: still_pending_def)
    from world_invD(7) [OF i1 s1] show ?thesis
    proof
      assume "p \<in> waiting w1"
      then show ?thesis .
    next
      assume "\<exists>e. settled (svc w1) p = Some (Inl e)"
      then obtain e where "settled (svc w1) p = Some (Inl e)" ..
      from steps_settled [OF assms(3) i1 this] n show ?thesis by simp
    qed
  qed
  from assms(4) have p2: "p \<in> waiting w2 \<or> settled (svc w2) p = None"
    by (simp add: still_pending_def split: if_splits)
  from steps_waiting [OF assms(3) i1 m1 p2]
  have m2: "p \<in> waiting w2" and r2: "reads (svc w2) = reads (svc w1)" and i2: "world_inv d w2"
    by simp_all
  from world_invD(1) [OF i2 m2] have s2: "pendingInit (svc w2) = Some p" .
  from assms(5) s2 have q: "q = p" and n: "\<not> started'" and w3: "w3 = w2"
    by (simp_all add: init_call_taken)
  have a: "reads (svc w4) = reads (svc w1) \<and> running w4 \<subseteq> {p}"
    if "(step d)\<^sup>*\<^sup>* w3 w4" and "still_pending started p w4" for w4
  proof -
    from that(2) have "p \<in> waiting w4 \<or> settled (svc w4) p = None"
      by (simp add: still_pending_def split: if_splits)
    from steps_waiting [OF that(1) [unfolded w3] i2 m2 this]
    have "p \<in> waiting w4" "reads (svc w4) = reads (svc w2)" "world_inv d w4" by simp_all
    with r2 world_inv_waiting(2) [of d w4 p] show ?thesis by simp
  qed
  have b: "length (attempts_of w4 p) \<le> 1" if "(step d)\<^sup>*\<^sup>* w3 w4" for w4
  proof -
    from steps_inv [OF that [unfolded w3] i2] have i4: "world_inv d w4" .
    show ?thesis
    proof (cases "settled (svc w4) p")
      case None
      from world_invD(4) [OF i4 None] show ?thesis by simp
    next
      case (Some r)
      from world_invD(6) [OF i4 Some] show ?thesis by auto
    qed
  qed
  have c: "init_outcome started p (svc w4) = Some r \<and>
           init_outcome started' q (svc w4) = Some r \<and>
           (\<exists>env s. attempts_of w4 p = [(env, s)] \<and> r = fst (init_attempt d env s) \<and>
              (\<forall>b. r = Inr b \<longrightarrow> (b \<longleftrightarrow> status (snd (init_attempt d env s)) = AUTHORIZED)))"
    if "(step d)\<^sup>*\<^sup>* w3 w4"
      and "init_outcome started p (svc w4) = Some r \<or> init_outcome started' q (svc w4) = Some r"
    for w4 r
  proof -
    from steps_inv [OF that(1) [unfolded w3] i2] have i4: "world_inv d w4" .
    from that(2) q have s: "settled (svc w4) p = Some r" by (simp add: init_outcome_eq)
    from world_invD(6) [OF i4 s] obtain env t
      where e: "attempts_of w4 p = [(env, t)]" "r = fst (init_attempt d env t)" by blast
    have "\<forall>b. r = Inr b \<longrightarrow> (b \<longleftrightarrow> status (snd (init_attempt d env t)) = AUTHORIZED)"
      using init_attempt_true [of d env t] e(2) by simp
    with e s q show ?thesis by (auto simp add: init_outcome_eq)
  qed
  from q n r1 r2 w3 a b c show ?thesis by blast
qed

theorem init_single_flight_witness:
  "reachable deps0 world0 \<and>
   init_call world0 = ((0, True), world1) \<and>
   (step deps0)\<^sup>*\<^sup>* world1 world2 \<and>
   still_pending True 0 world2 \<and>
   init_call world2 = ((0, False), world2) \<and>
   (step deps0)\<^sup>*\<^sup>* world2 world3 \<and>
   still_pending True 0 world3 \<and>
   reads (svc world0) = 0 \<and> reads (svc world1) = 1 \<and> reads (svc world3) = 1 \<and>
   init_attempt deps0 env_ok (svc world2) =
     login deps0 env_ok creds (emit (Settled GetItems) (svc world2)) \<and>
   init_outcome True 0 (svc world3) = Some (Inr True) \<and>
   init_outcome False 0 (svc world3) = Some (Inr True) \<and>
   attempts_of world3 0 = [(env_ok, svc world2)] \<and>
   status (svc world3) = AUTHORIZED"
proof -
  have p: "pendingInit (svc world0) = None" "fresh (svc world0) = 0" "reads (svc world0) = 0"
    "waiting world0 = {}" "running world0 = {}" "executed world0 = []"
    "settled (svc world0) = Map.empty"
    by (simp_all add: world0_def stored_def idle_def reads_def)
  have 1: "reachable deps0 world0" by (rule reach_init) (simp_all add: p)
  have c: "init_call world0 =
      ((0, True),
       world0\<lparr>svc := (emit (Called GetItems) (svc world0))\<lparr>fresh := Suc 0, pendingInit := Some 0\<rparr>,
              waiting := {0}, running := {0}\<rparr>)"
    by (simp add: init_call_empty [OF p(1)] p)
  then have e: "world1 =
      world0\<lparr>svc := (emit (Called GetItems) (svc world0))\<lparr>fresh := Suc 0, pendingInit := Some 0\<rparr>,
             waiting := {0}, running := {0}\<rparr>"
    by (simp add: world1_def)
  from c have 2: "init_call world0 = ((0, True), world1)" by (simp add: e)
  have "sessionStorage (svc world0) = sessionStorage stored" by (simp add: world0_def)
  then have w1: "pendingInit (svc world1) = Some 0" "waiting world1 = {0}" "running world1 = {0}"
    "executed world1 = []" "settled (svc world1) = Map.empty"
    "sessionStorage (svc world1) = sessionStorage stored"
    by (simp_all add: e p)
  have "effect (svc world1) ((svc world1)\<lparr>lockStatus := Some REGISTERED\<rparr>)"
    by (rule eff_lockStatus)
  then have "step deps0 world1 world2" unfolding world2_def unlock_def by (rule step_effect)
  then have 3: "(step deps0)\<^sup>*\<^sup>* world1 world2" by (rule r_into_rtranclp)
  have w2: "pendingInit (svc world2) = Some 0" "waiting world2 = {0}" "running world2 = {0}"
    "executed world2 = []" "settled (svc world2) = Map.empty"
    "sessionStorage (svc world2) = sessionStorage stored"
    "lockStatus (svc world2) = Some REGISTERED"
    by (simp_all add: world2_def w1)
  have 4: "still_pending True 0 world2" by (simp add: still_pending_def w2)
  have 5: "init_call world2 = ((0, False), world2)" by (simp add: init_call_taken w2)
  have "0 \<in> running world2" by (simp add: w2)
  then have "step deps0 world2 world3" unfolding world3_def by (rule step_attempt)
  then have 6: "(step deps0)\<^sup>*\<^sup>* world2 world3" by (rule r_into_rtranclp)
  have 7: "still_pending True 0 world3" by (simp add: still_pending_def world3_def w2)
  have o: "storedOptions (emit (Settled GetItems) (svc world2)) = Some creds"
    by (simp add: storedOptions_def w2 stored_def creds_def)
  have g: "getItems_error env_ok = None" by (simp add: env_ok_def)
  have a: "init_attempt deps0 env_ok (svc world2) =
      login deps0 env_ok creds (emit (Settled GetItems) (svc world2))"
    by (simp add: init_attempt_def Let_def g o)
  have l: "fst (login deps0 env_ok creds (emit (Settled GetItems) (svc world2))) = Inr True"
    by (simp add: login_fst cachedLock_def w2 env_ok_def deps0_def)
  have 8: "init_outcome True 0 (svc world3) = Some (Inr True)"
    by (simp add: init_outcome_eq world3_def a l)
  have 9: "attempts_of world3 0 = [(env_ok, svc world2)]"
    by (simp add: world3_def attempts_of_def w2)
  have 10: "status (svc world3) = AUTHORIZED"
    by (simp add: world3_def a login_status l)
  note t = init_single_flight [OF 1 2 3 4 5]
  from t have "reads (svc world1) = 1" by (simp add: p)
  moreover from t 6 7 have "reads (svc world3) = reads (svc world1)" by blast
  moreover from t 6 8 have "init_outcome False 0 (svc world3) = Some (Inr True)" by blast
  ultimately show ?thesis using 1 2 3 4 5 6 7 8 9 10 a p(3) by simp
qed

text \<open>
  C2, as amended. \<^verbatim>\<open>login\<close> followed by \<^verbatim>\<open>logout\<close> leaves the worker \<open>UNAUTHORIZED\<close>,
  the authentication store empty, the transport without credentials and without
  listener. \<^verbatim>\<open>logout\<close> does not write to session storage: the slots are as \<^verbatim>\<open>login\<close>
  left them, so after a resolved storage write the four credentials are still there.
\<close>

theorem login_logout:
  "status (snd (logout d (snd (login d env options s)))) = UNAUTHORIZED \<and>
   authStore_UID (snd (logout d (snd (login d env options s)))) = None \<and>
   authStore_password (snd (logout d (snd (login d env options s)))) = None \<and>
   api_auth (snd (logout d (snd (login d env options s)))) = None \<and>
   \<not> api_listener (snd (logout d (snd (login d env options s)))) \<and>
   sessionStorage (snd (logout d (snd (login d env options s)))) =
     sessionStorage (snd (login d env options s)) \<and>
   (setItems_error env = None \<longrightarrow>
      sessionStorage (snd (logout d (snd (login d env options s)))) ''UID'' = Some (UID options) \<and>
      sessionStorage (snd (logout d (snd (login d env options s)))) ''AccessToken'' =
        Some (AccessToken options) \<and>
      sessionStorage (snd (logout d (snd (login d env options s)))) ''RefreshToken'' =
        Some (RefreshToken options) \<and>
      sessionStorage (snd (logout d (snd (login d env options s)))) ''keyPassword'' =
        Some (keyPassword options))"
  by (simp add: login_written)

theorem login_logout_witness:
  "setItems_error env_ok = None \<and>
   status (snd (logout deps0 (snd (login deps0 env_ok creds idle)))) = UNAUTHORIZED \<and>
   api_auth (snd (logout deps0 (snd (login deps0 env_ok creds idle)))) = None \<and>
   sessionStorage (snd (logout deps0 (snd (login deps0 env_ok creds idle)))) ''UID'' = Some ''uid'' \<and>
   sessionStorage (snd (logout deps0 (snd (login deps0 env_ok creds idle)))) ''keyPassword'' = Some ''key''"
  using login_logout [of deps0 env_ok creds idle]
  by (simp add: env_ok_def creds_def)

text \<open>
  C2 as stated fails: after a successful \<^verbatim>\<open>login\<close> and a \<^verbatim>\<open>logout\<close>, the four slots of
  session storage still hold the credentials.
\<close>

theorem logout_storage_counterexample:
  "fst (login deps0 env_ok creds idle) = Inr True \<and>
   fst (logout deps0 (snd (login deps0 env_ok creds idle))) = True \<and>
   sessionStorage (snd (logout deps0 (snd (login deps0 env_ok creds idle)))) ''UID'' = Some ''uid'' \<and>
   sessionStorage (snd (logout deps0 (snd (login deps0 env_ok creds idle)))) ''AccessToken'' = Some ''access'' \<and>
   sessionStorage (snd (logout deps0 (snd (login deps0 env_ok creds idle)))) ''RefreshToken'' = Some ''refresh'' \<and>
   sessionStorage (snd (logout deps0 (snd (login deps0 env_ok creds idle)))) ''keyPassword'' = Some ''key''"
  by (simp add: login_fst login_written env_ok_def creds_def idle_def cachedLock_def)

text \<open>
  C3 fails on the code where the attempt throws. With the credentials in session storage
  and the lock-status endpoint out of reach, \<^verbatim>\<open>login\<close> rejects, \<^verbatim>\<open>init\<close> throws at its
  \<^verbatim>\<open>await\<close>, and the slot keeps the rejected promise: the next \<^verbatim>\<open>init\<close>, with every
  collaborator answering again, returns the same rejection and reads nothing.
\<close>

theorem init_slot_stuck:
  "pendingInit stored = None \<and>
   fst (init deps0 env_offline stored) = Some (Inl (Thrown offline)) \<and>
   pendingInit (snd (init deps0 env_offline stored)) = Some 0 \<and>
   fst (init deps0 env_ok (snd (init deps0 env_offline stored))) = Some (Inl (Thrown offline)) \<and>
   reads (snd (init deps0 env_ok (snd (init deps0 env_offline stored)))) =
     reads (snd (init deps0 env_offline stored))"
proof -
  have p: "pendingInit stored = None" and f: "fresh stored = 0"
    by (simp_all add: stored_def idle_def)
  have a: "fst (init_attempt deps0 env_offline s) = Inl (Thrown offline)"
    if "sessionStorage s = sessionStorage stored" "lockStatus s = None" for s
    using that
    by (simp add: init_attempt_def storedOptions_def Let_def login_fst cachedLock_def
          stored_def creds_def env_offline_def env_ok_def)
  have i: "init deps0 env_offline stored =
      (Some (Inl (Thrown offline)),
       settle 0 (Inl (Thrown offline))
         (snd (init_attempt deps0 env_offline
            ((emit (Called GetItems) stored)\<lparr>fresh := Suc 0, pendingInit := Some 0\<rparr>))))"
    by (simp add: init_empty p f Let_def init_resume_settle a stored_def idle_def)
  have q: "pendingInit (snd (init deps0 env_offline stored)) = Some 0" by (simp add: i)
  have s: "settled (snd (init deps0 env_offline stored)) 0 = Some (Inl (Thrown offline))" by (simp add: i)
  have j: "init deps0 env_ok (snd (init deps0 env_offline stored)) =
             (Some (Inl (Thrown offline)), snd (init deps0 env_offline stored))"
    by (simp add: init_taken [OF q] s)
  have fi: "fst (init deps0 env_offline stored) = Some (Inl (Thrown offline))" by (simp add: i)
  from j have fj: "fst (init deps0 env_ok (snd (init deps0 env_offline stored))) = Some (Inl (Thrown offline))"
    and rj: "reads (snd (init deps0 env_ok (snd (init deps0 env_offline stored)))) =
             reads (snd (init deps0 env_offline stored))"
    by simp_all
  from p fi q fj rj show ?thesis by blast
qed

text \<open>
  C4, as amended. An \<^verbatim>\<open>init\<close> that finds the slot empty, makes its attempt and returns,
  returns \<open>true\<close> exactly when the worker ends \<open>AUTHORIZED\<close>; when it returns \<open>false\<close> the
  worker is \<open>LOCKED\<close>, \<open>UNAUTHORIZED\<close> or \<open>RESUMING_FAILED\<close>.
\<close>

theorem init_true_iff_authorized:
  assumes "pendingInit s = None" and "init d env s = (Some (Inr b), s')"
  shows "(b \<longleftrightarrow> status s' = AUTHORIZED) \<and>
         (\<not> b \<longrightarrow> status s' = LOCKED \<or> status s' = UNAUTHORIZED \<or> status s' = RESUMING_FAILED)"
proof -
  define s1 where "s1 = (emit (Called GetItems) s)\<lparr>fresh := Suc (fresh s), pendingInit := Some (fresh s)\<rparr>"
  define a where "a = init_attempt d env s1"
  from assms have "init_resume (fresh s) (settle (fresh s) (fst a) (snd a)) = (Some (Inr b), s')"
    by (simp add: init_empty a_def s1_def Let_def)
  then have r: "fst a = Inr b" and s': "s' = (settle (fresh s) (fst a) (snd a))\<lparr>pendingInit := None\<rparr>"
    by (auto simp add: init_resume_settle split: sum.splits)
  from init_attempt_true [of d env s1 b] r
  have "(b \<longleftrightarrow> status (snd a) = AUTHORIZED) \<and>
        (\<not> b \<longrightarrow> status (snd a) \<in> {LOCKED, UNAUTHORIZED, RESUMING_FAILED})"
    by (simp add: a_def)
  moreover have "status s' = status (snd a)" by (simp add: s')
  ultimately show ?thesis by auto
qed

theorem init_true_iff_authorized_witness:
  "pendingInit stored = None \<and>
   init deps0 env_ok stored = (Some (Inr True), snd (init deps0 env_ok stored)) \<and>
   status (snd (init deps0 env_ok stored)) = AUTHORIZED"
proof -
  have p: "pendingInit stored = None" by (simp add: stored_def idle_def)
  have "fst (init deps0 env_ok stored) = Some (Inr True)"
    by (simp add: init_empty p init_resume_settle Let_def init_attempt_def storedOptions_def
          login_fst cachedLock_def stored_def creds_def env_ok_def idle_def)
  then have i: "init deps0 env_ok stored = (Some (Inr True), snd (init deps0 env_ok stored))"
    by (metis prod.collapse)
  from init_true_iff_authorized [OF p i] p i show ?thesis by simp
qed

text \<open>
  C4 as stated fails: with the credentials in session storage and a locked session,
  \<^verbatim>\<open>init\<close> returns \<open>false\<close> and the worker is \<open>LOCKED\<close>.
\<close>

theorem init_locked_counterexample:
  "pendingInit stored = None \<and>
   fst (init deps0 env_locked stored) = Some (Inr False) \<and>
   status (snd (init deps0 env_locked stored)) = LOCKED"
  by (simp add: init_empty init_resume_settle Let_def init_attempt_def storedOptions_def
        login_fst login_status cachedLock_def stored_def creds_def env_locked_def env_ok_def
        idle_def)

text \<open>
  C5, as amended. After the fork exchange has settled, \<^verbatim>\<open>consumeFork\<close> starts
  \<^verbatim>\<open>persistSession\<close> and then calls \<^verbatim>\<open>login\<close> without waiting for it: in every run
  \<^verbatim>\<open>login\<close> is called before \<^verbatim>\<open>persistSession\<close> has settled, the two being the members of
  one \<^verbatim>\<open>Promise.all\<close>. The handshake call is issued only after both \<^verbatim>\<open>login\<close> and
  \<^verbatim>\<open>persistSession\<close> have settled.
\<close>

theorem consumeFork_order:
  assumes "consumeFork_result env = Inr result"
  shows "never_before (Settled (ConsumeFork data)) (Called (PersistSession result))
           (new_events s (snd (consumeFork d env data s))) \<and>
         never_before (Called (PersistSession result)) (Called (Login (fork_options result data)))
           (new_events s (snd (consumeFork d env data s))) \<and>
         \<not> never_before (Settled (PersistSession result)) (Called (Login (fork_options result data)))
           (new_events s (snd (consumeFork d env data s))) \<and>
         never_before (Settled (Login (fork_options result data))) (Called UserAccess)
           (new_events s (snd (consumeFork d env data s))) \<and>
         never_before (Settled (PersistSession result)) (Called UserAccess)
           (new_events s (snd (consumeFork d env data s)))"
proof -
  let ?o = "fork_options result data"
  let ?pa = "promise_all d env result ?o (fork_begun data s)"
  let ?head = "[Called (ConsumeFork data), Settled (ConsumeFork data),
                Called (PersistSession result), Called (Login ?o), Called (SetItems ?o)]"
  let ?tail = "case fst ?pa of Inl e \<Rightarrow> [] | Inr b \<Rightarrow> [Called UserAccess, Settled UserAccess]"
  from promise_all_trace [of d env result ?o "fork_begun data s"]
  obtain rest where
    tr: "trace (snd ?pa) = trace (fork_begun data s) @ Called (PersistSession result) #
           Called (Login ?o) # Called (SetItems ?o) # rest"
    and ua: "Called UserAccess \<notin> set rest"
    and fin: "\<And>b. fst ?pa = Inr b \<Longrightarrow>
           Settled (Login ?o) \<in> set rest \<and> Settled (PersistSession result) \<in> set rest"
    by blast
  have t: "new_events s (snd (consumeFork d env data s)) = (?head @ rest) @ ?tail"
    by (simp add: new_events_def consumeFork_trace [OF assms] tr)
  have 1: "never_before (Settled (ConsumeFork data)) (Called (PersistSession result))
             ((?head @ rest) @ ?tail)"
    by (simp add: never_before_def)
  have 2: "never_before (Called (PersistSession result)) (Called (Login ?o)) ((?head @ rest) @ ?tail)"
    by (simp add: never_before_def)
  have 3: "\<not> never_before (Settled (PersistSession result)) (Called (Login ?o))
             ((?head @ rest) @ ?tail)"
    by (simp add: never_before_def)
  have 45: "never_before (Settled (Login ?o)) (Called UserAccess) ((?head @ rest) @ ?tail) \<and>
            never_before (Settled (PersistSession result)) (Called UserAccess) ((?head @ rest) @ ?tail)"
  proof (cases "fst ?pa")
    case (Inl e)
    then show ?thesis using ua by (simp add: never_before_absent)
  next
    case (Inr b)
    from fin [OF Inr] ua show ?thesis
      by (intro conjI never_before_prefix) simp_all
  qed
  from 1 2 3 45 show ?thesis unfolding t by blast
qed

theorem consumeFork_order_witness:
  "consumeFork_result env_ok = Inr forked \<and>
   \<not> never_before (Settled (PersistSession forked)) (Called (Login (fork_options forked data0)))
       (new_events idle (snd (consumeFork deps0 env_ok data0 idle))) \<and>
   never_before (Settled (Login (fork_options forked data0))) (Called UserAccess)
       (new_events idle (snd (consumeFork deps0 env_ok data0 idle)))"
proof -
  have e: "consumeFork_result env_ok = Inr forked" by (simp add: env_ok_def forked_def)
  from consumeFork_order [OF e, of data0 idle deps0] e show ?thesis by simp
qed

text \<open>
  C5 as stated fails: in the run where every collaborator succeeds, \<^verbatim>\<open>login\<close> is called,
  and has issued its storage write, before \<^verbatim>\<open>persistSession\<close> settles.
\<close>

theorem consumeFork_login_before_persisted:
  "fst (consumeFork deps0 env_ok data0 idle) = Inr (welcome_payload deps0) \<and>
   new_events idle (snd (consumeFork deps0 env_ok data0 idle)) =
     [Called (ConsumeFork data0), Settled (ConsumeFork data0),
      Called (PersistSession forked), Called (Login creds), Called (SetItems creds),
      Settled (PersistSession forked), Settled (SetItems creds),
      Called CheckSessionLock, Settled CheckSessionLock,
      Fired onAuthorized, Settled (Login creds),
      Called UserAccess, Settled UserAccess] \<and>
   \<not> never_before (Settled (PersistSession forked)) (Called (Login creds))
       (new_events idle (snd (consumeFork deps0 env_ok data0 idle)))"
proof -
  have e: "consumeFork_result env_ok = Inr forked" by (simp add: env_ok_def forked_def)
  have o: "fork_options forked data0 = creds"
    by (simp add: fork_options_def forked_def data0_def creds_def)
  have u: "userAccess_error env_ok = None" by (simp add: env_ok_def)
  have i: "trace idle = []" by (simp add: idle_def)
  have p: "fst (promise_all deps0 env_ok forked creds (fork_begun data0 idle)) = Inr True"
    by (simp add: promise_all_fst login_fst env_ok_def cachedLock_def idle_def)
  have t: "trace (snd (promise_all deps0 env_ok forked creds (fork_begun data0 idle))) =
      [Called (ConsumeFork data0), Settled (ConsumeFork data0),
      Called (PersistSession forked), Called (Login creds), Called (SetItems creds),
      Settled (PersistSession forked), Settled (SetItems creds),
      Called CheckSessionLock, Settled CheckSessionLock,
      Fired onAuthorized, Settled (Login creds)]"
    by (simp add: promise_all_unfold Let_def env_ok_def cachedLock_def idle_def deps0_def)
  have c: "consumeFork deps0 env_ok data0 idle =
      (Inr (welcome_payload deps0),
       emit (Settled UserAccess) (emit (Called UserAccess)
         (snd (promise_all deps0 env_ok forked creds (fork_begun data0 idle)))))"
    by (simp add: consumeFork_exchanged [OF e] o case_prod_unfold p u)
  have n: "new_events idle (snd (consumeFork deps0 env_ok data0 idle)) =
     [Called (ConsumeFork data0), Settled (ConsumeFork data0),
      Called (PersistSession forked), Called (Login creds), Called (SetItems creds),
      Settled (PersistSession forked), Settled (SetItems creds),
      Called CheckSessionLock, Settled CheckSessionLock,
      Fired onAuthorized, Settled (Login creds),
      Called UserAccess, Settled UserAccess]"
    by (simp add: c t new_events_def i)
  show ?thesis unfolding n by (simp add: c never_before_def)
qed

text \<open>
  C6, as amended. When the fork exchange, \<^verbatim>\<open>persistSession\<close> and \<^verbatim>\<open>login\<close> have all
  resolved and the handshake then fails with an error other than \<open>LockedSession\<close>,
  \<^verbatim>\<open>consumeFork\<close> rejects with the title and message payload and its \<^verbatim>\<open>catch\<close> block
  resets the worker to \<open>UNAUTHORIZED\<close>. Everything else \<^verbatim>\<open>login\<close> did stays: the four
  credentials in session storage, the transport's configuration, the UID and key password
  of the authentication store, and the listener when \<^verbatim>\<open>login\<close> returned \<open>true\<close>.
\<close>

theorem consumeFork_handshake_rejected:
  assumes "consumeFork_result env = Inr result"
      and "persistSession_error env = None"
      and "fst (login d env (fork_options result data) (fork_begun data s)) = Inr b"
      and "userAccess_error env = Some e"
      and "err_name e \<noteq> Some ''LockedSession''"
  shows "fst (consumeFork d env data s) =
           Inl (WithPayload
                  \<lparr>title = (case err_title e of Some t \<Rightarrow> t | None \<Rightarrow> ''Something went wrong''),
                   message = (case err_message e of
                                Some m \<Rightarrow> m
                              | None \<Rightarrow> ''Unable to login to '' @ PASS_APP_NAME d)\<rparr>) \<and>
         status (snd (consumeFork d env data s)) = UNAUTHORIZED \<and>
         sessionStorage (snd (consumeFork d env data s)) ''UID'' = Some (fork_UID result) \<and>
         sessionStorage (snd (consumeFork d env data s)) ''AccessToken'' =
           Some (fork_AccessToken result) \<and>
         sessionStorage (snd (consumeFork d env data s)) ''RefreshToken'' =
           Some (fork_RefreshToken result) \<and>
         sessionStorage (snd (consumeFork d env data s)) ''keyPassword'' =
           Some (fork_keyPassword data) \<and>
         api_auth (snd (consumeFork d env data s)) =
           Some \<lparr>api_UID = fork_UID result, api_AccessToken = fork_AccessToken result,
                 api_RefreshToken = fork_RefreshToken result\<rparr> \<and>
         authStore_UID (snd (consumeFork d env data s)) = Some (fork_UID result) \<and>
         authStore_password (snd (consumeFork d env data s)) = Some (fork_keyPassword data) \<and>
         api_listener (snd (consumeFork d env data s)) = b"
proof -
  let ?o = "fork_options result data"
  from assms(3) have w: "setItems_error env = None" by (rule login_Inr_written)
  have c: "consumeFork d env data s =
      fork_catch d (Thrown e) (emit (Settled UserAccess) (emit (Called UserAccess)
        (snd (promise_all d env result ?o (fork_begun data s)))))"
    using assms(4,5) by (simp add: consumeFork_resolved [OF assms(1,2,3)])
  show ?thesis
    using login_listener [OF assms(3)]
    by (simp add: c promise_all_fields [OF assms(2)] login_written [OF w] fork_options_def
          fork_rethrow_simps)
qed

theorem consumeFork_handshake_rejected_witness:
  "consumeFork_result env_access_offline = Inr forked \<and>
   persistSession_error env_access_offline = None \<and>
   fst (login deps0 env_access_offline (fork_options forked data0) (fork_begun data0 idle)) = Inr True \<and>
   userAccess_error env_access_offline = Some offline \<and>
   err_name offline \<noteq> Some ''LockedSession'' \<and>
   fst (consumeFork deps0 env_access_offline data0 idle) =
     Inl (WithPayload \<lparr>title = ''Something went wrong'', message = ''No network connection''\<rparr>) \<and>
   status (snd (consumeFork deps0 env_access_offline data0 idle)) = UNAUTHORIZED \<and>
   sessionStorage (snd (consumeFork deps0 env_access_offline data0 idle)) ''UID'' = Some ''uid'' \<and>
   api_auth (snd (consumeFork deps0 env_access_offline data0 idle)) =
     Some \<lparr>api_UID = ''uid'', api_AccessToken = ''access'', api_RefreshToken = ''refresh''\<rparr> \<and>
   api_listener (snd (consumeFork deps0 env_access_offline data0 idle))"
proof -
  have 1: "consumeFork_result env_access_offline = Inr forked"
    and 2: "persistSession_error env_access_offline = None"
    and 4: "userAccess_error env_access_offline = Some offline"
    by (simp_all add: env_access_offline_def env_ok_def forked_def)
  have 3: "fst (login deps0 env_access_offline (fork_options forked data0) (fork_begun data0 idle)) = Inr True"
    by (simp add: login_fst env_access_offline_def env_ok_def cachedLock_def idle_def)
  have 5: "err_name offline \<noteq> Some ''LockedSession''" by (simp add: offline_def)
  from consumeFork_handshake_rejected [OF 1 2 3 4 5] 1 2 3 4 5 show ?thesis
    by (simp add: offline_def forked_def)
qed

text \<open>
  C6 as stated fails on the status: \<^verbatim>\<open>login\<close> left the worker \<open>AUTHORIZED\<close>, the handshake
  failed for lack of network, and \<^verbatim>\<open>consumeFork\<close> ends with the worker \<open>UNAUTHORIZED\<close>.
\<close>

theorem consumeFork_status_reset_counterexample:
  "status (snd (login deps0 env_access_offline (fork_options forked data0) (fork_begun data0 idle))) =
     AUTHORIZED \<and>
   fst (consumeFork deps0 env_access_offline data0 idle) =
     Inl (WithPayload \<lparr>title = ''Something went wrong'', message = ''No network connection''\<rparr>) \<and>
   status (snd (consumeFork deps0 env_access_offline data0 idle)) = UNAUTHORIZED"
proof -
  have 1: "consumeFork_result env_access_offline = Inr forked"
    and 2: "persistSession_error env_access_offline = None"
    and 4: "userAccess_error env_access_offline = Some offline"
    by (simp_all add: env_access_offline_def env_ok_def forked_def)
  have 3: "fst (login deps0 env_access_offline (fork_options forked data0) (fork_begun data0 idle)) = Inr True"
    by (simp add: login_fst env_access_offline_def env_ok_def cachedLock_def idle_def)
  have 5: "err_name offline \<noteq> Some ''LockedSession''" by (simp add: offline_def)
  have c: "consumeFork deps0 env_access_offline data0 idle =
      fork_catch deps0 (Thrown offline) (emit (Settled UserAccess) (emit (Called UserAccess)
        (snd (promise_all deps0 env_access_offline forked (fork_options forked data0)
               (fork_begun data0 idle)))))"
    using 4 5 by (simp add: consumeFork_resolved [OF 1 2 3])
  show ?thesis by (simp add: c login_status 3 offline_def fork_rethrow_simps)
qed




text \<open>
  C8, as amended. With a cached lock status of \<open>LOCKED\<close> in \<^verbatim>\<open>authCtx\<close> (a value that the
  test \<^verbatim>\<open>cachedLockStatus ? \<dots>\<close> accepts), \<^verbatim>\<open>login\<close> never calls \<^verbatim>\<open>checkSessionLock\<close>,
  whatever the collaborators answer. When its storage write resolves, it returns \<open>false\<close>
  without raising and the worker is \<open>LOCKED\<close>; when its storage write rejects, \<^verbatim>\<open>login\<close>
  rejects with that error and the status is as it was.
\<close>

theorem login_cached_locked:
  assumes "lockStatus s = Some LOCKED_SESSION" and "truthy d LOCKED_SESSION"
  shows "Called CheckSessionLock \<notin> set (new_events s (snd (login d env options s))) \<and>
         (setItems_error env = None \<longrightarrow>
            fst (login d env options s) = Inr False \<and>
            status (snd (login d env options s)) = LOCKED) \<and>
         (\<forall>e. setItems_error env = Some e \<longrightarrow>
            fst (login d env options s) = Inl e \<and>
            status (snd (login d env options s)) = status s)"
proof -
  from assms have c: "cachedLock d s = Some \<lparr>lock_status = LOCKED_SESSION, lock_ttl = None\<rparr>"
    by (simp add: cachedLock_def)
  have "Called CheckSessionLock \<notin> set (new_events s (snd (login d env options s)))"
    using c by (simp add: login_unfold new_events_def Let_def split: option.splits)
  moreover have "setItems_error env = None \<longrightarrow> fst (login d env options s) = Inr False"
    using c by (simp add: login_fst)
  moreover have "setItems_error env = None \<longrightarrow> status (snd (login d env options s)) = LOCKED"
    using c by (simp add: login_status login_fst)
  moreover have "\<forall>e. setItems_error env = Some e \<longrightarrow> fst (login d env options s) = Inl e"
    by (simp add: login_fst)
  moreover have "\<forall>e. setItems_error env = Some e \<longrightarrow>
      status (snd (login d env options s)) = status s"
    by (simp add: login_status login_fst)
  ultimately show ?thesis by blast
qed

theorem login_cached_locked_witness:
  "lockStatus hinted = Some LOCKED_SESSION \<and> truthy deps0 LOCKED_SESSION \<and>
   setItems_error env_ok = None \<and>
   Called CheckSessionLock \<notin> set (new_events hinted (snd (login deps0 env_ok creds hinted))) \<and>
   fst (login deps0 env_ok creds hinted) = Inr False \<and>
   status (snd (login deps0 env_ok creds hinted)) = LOCKED \<and>
   setItems_error env_write_fails = Some (Thrown quota_exceeded) \<and>
   Called CheckSessionLock \<notin>
     set (new_events hinted (snd (login deps0 env_write_fails creds hinted))) \<and>
   fst (login deps0 env_write_fails creds hinted) = Inl (Thrown quota_exceeded) \<and>
   status (snd (login deps0 env_write_fails creds hinted)) = UNAUTHORIZED"
proof -
  have 1: "lockStatus hinted = Some LOCKED_SESSION" by (simp add: hinted_def)
  have 2: "truthy deps0 LOCKED_SESSION" by (simp add: deps0_def)
  have 3: "setItems_error env_ok = None" by (simp add: env_ok_def)
  have 4: "setItems_error env_write_fails = Some (Thrown quota_exceeded)"
    by (simp add: env_write_fails_def)
  have 5: "status hinted = UNAUTHORIZED" by (simp add: hinted_def idle_def)
  from login_cached_locked [OF 1 2, of env_ok creds]
       login_cached_locked [OF 1 2, of env_write_fails creds] 1 2 3 4 5
  show ?thesis by simp
qed

text \<open>
  C8 as stated fails: the cached lock status says \<open>LOCKED\<close>, session storage refuses the
  write, and \<^verbatim>\<open>login\<close> raises the error of the write; the worker is not \<open>LOCKED\<close>.
\<close>

theorem login_write_rejected_counterexample:
  "lockStatus hinted = Some LOCKED_SESSION \<and> truthy deps0 LOCKED_SESSION \<and>
   fst (login deps0 env_write_fails creds hinted) = Inl (Thrown quota_exceeded) \<and>
   status (snd (login deps0 env_write_fails creds hinted)) = UNAUTHORIZED"
  by (simp add: login_fst login_status hinted_def idle_def deps0_def env_write_fails_def)

text \<open>
  C9. When the fork exchange, \<^verbatim>\<open>persistSession\<close> and \<^verbatim>\<open>login\<close> have all resolved and
  the handshake fails with an error named \<open>LockedSession\<close>, \<^verbatim>\<open>consumeFork\<close> resolves with
  the welcome payload, and the worker stays as \<^verbatim>\<open>login\<close> left it.
\<close>

theorem consumeFork_locked_session_swallowed:
  assumes "consumeFork_result env = Inr result"
      and "persistSession_error env = None"
      and "fst (login d env (fork_options result data) (fork_begun data s)) = Inr b"
      and "userAccess_error env = Some e"
      and "err_name e = Some ''LockedSession''"
  shows "fst (consumeFork d env data s) = Inr (welcome_payload d) \<and>
         status (snd (consumeFork d env data s)) = (if b then AUTHORIZED else LOCKED)"
  using assms(3,4,5)
  by (simp add: consumeFork_resolved [OF assms(1,2,3)] promise_all_fields [OF assms(2)]
        login_status)

theorem consumeFork_locked_session_swallowed_witness:
  "consumeFork_result env_access_locked = Inr forked \<and>
   persistSession_error env_access_locked = None \<and>
   fst (login deps0 env_access_locked (fork_options forked data0) (fork_begun data0 idle)) = Inr True \<and>
   userAccess_error env_access_locked = Some locked_session \<and>
   err_name locked_session = Some ''LockedSession'' \<and>
   fst (consumeFork deps0 env_access_locked data0 idle) = Inr (welcome_payload deps0) \<and>
   title (welcome_payload deps0) = ''Welcome to Proton Pass'' \<and>
   status (snd (consumeFork deps0 env_access_locked data0 idle)) = AUTHORIZED"
proof -
  have 1: "consumeFork_result env_access_locked = Inr forked"
    and 2: "persistSession_error env_access_locked = None"
    and 4: "userAccess_error env_access_locked = Some locked_session"
    by (simp_all add: env_access_locked_def env_ok_def forked_def)
  have 3: "fst (login deps0 env_access_locked (fork_options forked data0) (fork_begun data0 idle)) = Inr True"
    by (simp add: login_fst env_access_locked_def env_ok_def cachedLock_def idle_def)
  have 5: "err_name locked_session = Some ''LockedSession''" by (simp add: locked_session_def)
  have 6: "title (welcome_payload deps0) = ''Welcome to Proton Pass''"
    by (simp add: welcome_payload_def deps0_def)
  from consumeFork_locked_session_swallowed [OF 1 2 3 4 5] 1 2 3 4 5 6 show ?thesis by simp
qed

text \<open>
  C10. A \<^verbatim>\<open>login\<close> that returns \<open>false\<close> has left its effects behind: the four
  credentials are in session storage, the transport is configured with them, the
  authentication store holds the UID and the key password, and the worker is \<open>LOCKED\<close>.
  The storage write settled before any lock-status call was issued.
\<close>

theorem login_false_effects:
  assumes "login d env options s = (Inr False, s')"
  shows "sessionStorage s' ''UID'' = Some (UID options) \<and>
         sessionStorage s' ''AccessToken'' = Some (AccessToken options) \<and>
         sessionStorage s' ''RefreshToken'' = Some (RefreshToken options) \<and>
         sessionStorage s' ''keyPassword'' = Some (keyPassword options) \<and>
         api_auth s' = Some \<lparr>api_UID = UID options, api_AccessToken = AccessToken options,
                               api_RefreshToken = RefreshToken options\<rparr> \<and>
         authStore_UID s' = Some (UID options) \<and>
         authStore_password s' = Some (keyPassword options) \<and>
         status s' = LOCKED \<and>
         never_before (Settled (SetItems options)) (Called CheckSessionLock) (new_events s s')"
proof -
  from assms have f: "fst (login d env options s) = Inr False"
    and s': "s' = snd (login d env options s)" by simp_all
  from f have w: "setItems_error env = None" by (rule login_Inr_written)
  have "status s' = LOCKED" using f by (simp add: s' login_status)
  moreover have "never_before (Settled (SetItems options)) (Called CheckSessionLock) (new_events s s')"
    using w unfolding s'
    by (simp add: login_unfold new_events_def never_before_def Let_def login_resolve_def
          split: option.splits sum.splits)
  ultimately show ?thesis using login_written [OF w, of d options s] by (simp add: s')
qed

theorem login_false_effects_witness:
  "login deps0 env_locked creds idle = (Inr False, snd (login deps0 env_locked creds idle)) \<and>
   sessionStorage (snd (login deps0 env_locked creds idle)) ''UID'' = Some ''uid'' \<and>
   sessionStorage (snd (login deps0 env_locked creds idle)) ''AccessToken'' = Some ''access'' \<and>
   sessionStorage (snd (login deps0 env_locked creds idle)) ''RefreshToken'' = Some ''refresh'' \<and>
   sessionStorage (snd (login deps0 env_locked creds idle)) ''keyPassword'' = Some ''key'' \<and>
   api_auth (snd (login deps0 env_locked creds idle)) =
     Some \<lparr>api_UID = ''uid'', api_AccessToken = ''access'', api_RefreshToken = ''refresh''\<rparr> \<and>
   authStore_UID (snd (login deps0 env_locked creds idle)) = Some ''uid'' \<and>
   authStore_password (snd (login deps0 env_locked creds idle)) = Some ''key'' \<and>
   status (snd (login deps0 env_locked creds idle)) = LOCKED"
proof -
  have "fst (login deps0 env_locked creds idle) = Inr False"
    by (simp add: login_fst env_locked_def env_ok_def idle_def cachedLock_def)
  then have "login deps0 env_locked creds idle = (Inr False, snd (login deps0 env_locked creds idle))"
    by (metis prod.collapse)
  from this login_false_effects [OF this] show ?thesis by (simp add: creds_def)
qed


end
